theory Spec2Isabelle
  imports Main "HOL-Library.Word"
begin

unbundle bit_operations_syntax

section \<open>Machine integers, memory and the allocator\<close>

text \<open>
  All arithmetic of \<^verbatim>\<open>blob.h\<close> is done in C \<^verbatim>\<open>int\<close> after integer promotion; with
  16-bit operands none of its sums and products leaves the 32-bit range, so the model
  computes in \<open>int\<close>. A value stored into an \<^verbatim>\<open>int16_t\<close> object (an assignment, an
  argument, \<^verbatim>\<open>++current\<close>) is converted back; \<open>s16\<close> is that conversion, the
  two's-complement wrap-around every common compiler implements.
\<close>

definition s16 :: "int \<Rightarrow> int" where
  "s16 v = (v + 32768) mod 65536 - 32768"

type_synonym label_t = int
type_synonym uint8_t = "8 word"

text \<open>
  Undefined behaviour of the C program is a value of the model: a read or write outside
  an array, or the use of a null pointer.
\<close>

datatype fault = OutOfBounds | NullPointer

text \<open>
  The outcome of a piece of code that may leave its function early: it falls through
  with a state, it executes \<^verbatim>\<open>return rc\<close> in a state, or it runs into undefined
  behaviour.
\<close>

datatype 's flow = Continue 's | Return int 's | Fault fault

definition load :: "'a list \<Rightarrow> int \<Rightarrow> 'a option" where
  "load m k = (if 0 \<le> k \<and> k < int (length m) then Some (m ! nat k) else None)"

definition store :: "'a list \<Rightarrow> int \<Rightarrow> 'a \<Rightarrow> 'a list option" where
  "store m k v = (if 0 \<le> k \<and> k < int (length m) then Some (m[nat k := v]) else None)"

text \<open>
  \<^verbatim>\<open>malloc\<close> and \<^verbatim>\<open>BLOB_REALLOC\<close> may fail. The allocator is a script of answers, one
  per request, consumed from the front; an exhausted script grants every request.
\<close>

fun alloc :: "bool list \<Rightarrow> bool \<times> bool list" where
  "alloc [] = (True, [])"
| "alloc (b # bs) = (b, bs)"

section \<open>Contours and blobs\<close>

text \<open>
  \<open>points\<close> holds the initialised part of the C array, one pair per point, so it has
  \<open>count\<close> entries; a null \<^verbatim>\<open>points\<close> pointer is the empty list with capacity 0.
\<close>

record contour_t =
  count :: int
  capacity :: int
  points :: "(int \<times> int) list"

record blob_t =
  label :: label_t
  external :: contour_t
  internal :: "contour_t list option"
  internal_count :: int

definition zero_contour :: contour_t where
  "zero_contour = \<lparr>count = 0, capacity = 0, points = []\<rparr>"

definition zero_blob :: blob_t where
  "zero_blob = \<lparr>label = 0, external = zero_contour, internal = None, internal_count = 0\<rparr>"

definition contour_add_point ::
  "contour_t \<Rightarrow> int \<Rightarrow> int \<Rightarrow> bool list \<Rightarrow> int \<times> contour_t \<times> bool list" where
  "contour_add_point c px py al =
     (if count c = capacity c then
        (let newCapacity = (if capacity c \<noteq> 0 then capacity c * 2 else 32) in
         case alloc al of
           (False, al') \<Rightarrow> (0, c, al')
         | (True, al') \<Rightarrow>
             (1, c\<lparr>capacity := newCapacity,
                   points := points c @ [(s16 px, s16 py)],
                   count := count c + 1\<rparr>, al'))
      else (1, c\<lparr>points := points c @ [(s16 px, s16 py)], count := count c + 1\<rparr>, al))"

definition blob_add ::
  "blob_t list option \<Rightarrow> int \<Rightarrow> bool list \<Rightarrow> int \<times> blob_t list option \<times> int \<times> bool list" where
  "blob_add b cnt al =
     (case alloc al of
        (False, al') \<Rightarrow> (0, b, cnt, al')
      | (True, al') \<Rightarrow>
          (1, Some ((case b of None \<Rightarrow> [] | Some bs \<Rightarrow> bs) @ [zero_blob]), cnt + 1, al'))"

definition blob_add_internal :: "blob_t \<Rightarrow> bool list \<Rightarrow> int \<times> blob_t \<times> bool list" where
  "blob_add_internal b al =
     (case alloc al of
        (False, al') \<Rightarrow> (0, b, al')
      | (True, al') \<Rightarrow>
          (1, b\<lparr>internal := Some ((case internal b of None \<Rightarrow> [] | Some cs \<Rightarrow> cs) @ [zero_contour]),
                internal_count := internal_count b + 1\<rparr>, al'))"

section \<open>The contour tracer\<close>

definition dx :: "int \<Rightarrow> int" where
  "dx i = [1, 1, 0, -1, -1, -1, 0, 1] ! nat i"

definition dy :: "int \<Rightarrow> int" where
  "dy i = [0, 1, 1, 1, 0, -1, -1, -1] ! nat i"

text \<open>
  The arguments of \<^verbatim>\<open>contour_trace\<close> that it only reads. The mask pointer \<^verbatim>\<open>in\<close> is
  the caller's array \<open>a_in\<close> together with the offset \<open>a_base\<close> of the pixel it points to.
\<close>

record trace_args =
  a_external :: int
  a_current :: label_t
  a_x :: int
  a_y :: int
  a_roi_x :: int
  a_roi_y :: int
  a_roi_w :: int
  a_roi_h :: int
  a_in :: "uint8_t list"
  a_base :: int
  a_line_stride :: int

text \<open>The local variables of \<^verbatim>\<open>contour_trace\<close> and the memory it writes.\<close>

record trace_state =
  t_i :: int
  t_j :: int
  t_x0 :: int
  t_y0 :: int
  t_xx :: int
  t_yy :: int
  t_done :: bool
  t_label :: "label_t list"
  t_contour :: "contour_t option"
  t_alloc :: "bool list"

text \<open>
  The \<^verbatim>\<open>for\<close> loop over the neighbours, entered with \<open>t_j\<close> at 0: on \<^verbatim>\<open>break\<close> it
  leaves \<open>t_j\<close> below 8 and \<open>t_i\<close> at the direction taken.
\<close>

function neighbour_scan :: "trace_args \<Rightarrow> trace_state \<Rightarrow> fault + trace_state" where
  "neighbour_scan a s =
     (if t_j s < 8 then
        (let x1 = s16 (t_x0 s + dx (t_i s));
             y1 = s16 (t_y0 s + dy (t_i s));
             offset = x1 + a_roi_w a * y1;
             skip = s\<lparr>t_j := t_j s + 1, t_i := (t_i s + 1) AND 7\<rparr>
         in if x1 < 0 \<or> x1 \<ge> a_roi_w a then neighbour_scan a skip
            else if y1 < 0 \<or> y1 \<ge> a_roi_h a then neighbour_scan a skip
            else case load (a_in a) (a_base a + x1 + a_line_stride a * y1) of
                   None \<Rightarrow> Inl OutOfBounds
                 | Some p \<Rightarrow>
                     if p \<noteq> 0 then
                       (case store (t_label s) offset (a_current a) of
                          None \<Rightarrow> Inl OutOfBounds
                        | Some l' \<Rightarrow>
                            Inr (if t_xx s < 0 \<and> t_yy s < 0
                                 then s\<lparr>t_label := l', t_xx := x1, t_yy := y1, t_x0 := x1, t_y0 := y1\<rparr>
                                 else s\<lparr>t_label := l',
                                        t_done := ((a_x a = t_x0 s \<and> t_xx s = x1)
                                                   \<and> (a_y a = t_y0 s \<and> t_yy s = y1)),
                                        t_x0 := x1, t_y0 := y1\<rparr>))
                     else
                       (case store (t_label s) offset (- 1) of
                          None \<Rightarrow> Inl OutOfBounds
                        | Some l' \<Rightarrow> neighbour_scan a (skip\<lparr>t_label := l'\<rparr>)))
      else Inr s)"
  by pat_completeness auto
termination
  by (relation "measure (\<lambda>(a, s). nat (8 - t_j s))") auto

declare neighbour_scan.simps [simp del]

text \<open>One iteration of the \<^verbatim>\<open>while(!done)\<close> loop.\<close>

definition trace_body :: "trace_args \<Rightarrow> trace_state \<Rightarrow> trace_state flow" where
  "trace_body a s =
     (case (case t_contour s of
              None \<Rightarrow> (1, None, t_alloc s)
            | Some c \<Rightarrow>
                (case contour_add_point c (a_roi_x a + t_x0 s) (a_roi_y a + t_y0 s) (t_alloc s) of
                   (rc, c', al') \<Rightarrow> (rc, Some c', al'))) of
        (rc, c', al') \<Rightarrow>
          if rc = 0 then Return 0 (s\<lparr>t_contour := c', t_alloc := al'\<rparr>)
          else
            (case neighbour_scan a (s\<lparr>t_contour := c', t_alloc := al', t_j := 0\<rparr>) of
               Inl f \<Rightarrow> Fault f
             | Inr s1 \<Rightarrow>
                 (let s2 = (if t_j s1 = 8 then s1\<lparr>t_done := True\<rparr> else s1);
                      previous = (t_i s2 + 4) AND 7
                  in Continue (s2\<lparr>t_i := (previous + 2) AND 7\<rparr>))))"

text \<open>
  The \<^verbatim>\<open>while(!done)\<close> loop itself. Nothing in the code bounds its iterations, so it
  is a partial function: \<open>None\<close> is a walk that never closes.
\<close>

partial_function (option) trace_loop ::
  "trace_args \<Rightarrow> trace_state \<Rightarrow> (fault + int \<times> trace_state) option" where
  "trace_loop a s =
     (if \<not> t_done s then
        (case trace_body a s of
           Continue s' \<Rightarrow> trace_loop a s'
         | Return rc s' \<Rightarrow> Some (Inr (rc, s'))
         | Fault f \<Rightarrow> Some (Inl f))
      else Some (Inr (1, s)))"

declare trace_loop.simps [code]

text \<open>
  The locals of \<^verbatim>\<open>contour_trace\<close> on entry to the loop; \<^verbatim>\<open>j\<close> is not initialised
  there and is set to 0 by the \<^verbatim>\<open>for\<close> statement before its first use.
\<close>

definition trace_init ::
  "trace_args \<Rightarrow> label_t list \<Rightarrow> contour_t option \<Rightarrow> bool list \<Rightarrow> trace_state" where
  "trace_init a l' contour al =
     \<lparr>t_i = (if a_external a \<noteq> 0 then 7 else 3), t_j = 0,
      t_x0 = a_x a, t_y0 = a_y a, t_xx = - 1, t_yy = - 1, t_done = False,
      t_label = l', t_contour = contour, t_alloc = al\<rparr>"

definition contour_trace ::
  "trace_args \<Rightarrow> label_t list \<Rightarrow> contour_t option \<Rightarrow> bool list
     \<Rightarrow> (fault + int \<times> trace_state) option" where
  "contour_trace a lbl contour al =
     (case store lbl (a_x a + a_roi_w a * a_y a) (a_current a) of
        None \<Rightarrow> Some (Inl OutOfBounds)
      | Some l' \<Rightarrow> trace_loop a (trace_init a l' contour al))"

section \<open>The scan-line driver\<close>

text \<open>What \<^verbatim>\<open>find_blobs\<close> reads during the scan: the adjusted ROI, the mask, the flag.\<close>

record scan_args =
  f_roi_x :: int
  f_roi_y :: int
  f_roi_w :: int
  f_roi_h :: int
  f_in :: "uint8_t list"
  f_in_w :: int
  f_extract_internal :: int

text \<open>
  What the scan writes: the label buffer \<^verbatim>\<open>*label\<close>, the caller's cells \<^verbatim>\<open>*blobs\<close>
  and \<^verbatim>\<open>*count\<close>, the local \<^verbatim>\<open>current\<close>, and the allocator.
\<close>

record scan_state =
  s_label :: "label_t list"
  s_blobs :: "blob_t list option"
  s_count :: int
  s_current :: label_t
  s_alloc :: "bool list"

definition trace_call :: "scan_args \<Rightarrow> int \<Rightarrow> label_t \<Rightarrow> int \<Rightarrow> int \<Rightarrow> trace_args" where
  "trace_call e ext cur i j =
     \<lparr>a_external = ext, a_current = cur, a_x = i, a_y = j,
      a_roi_x = f_roi_x e, a_roi_y = f_roi_y e, a_roi_w = f_roi_w e, a_roi_h = f_roi_h e,
      a_in = f_in e, a_base = f_roi_x e + f_in_w e * f_roi_y e, a_line_stride = f_in_w e\<rparr>"

text \<open>Case 1 of the scan: a new external contour. The result of the tracer is dropped.\<close>

definition new_external :: "scan_args \<Rightarrow> int \<Rightarrow> int \<Rightarrow> scan_state \<Rightarrow> scan_state flow option" where
  "new_external e i j s =
     (case blob_add (s_blobs s) (s_count s) (s_alloc s) of
        (rc, bs, cnt, al) \<Rightarrow>
          if rc = 0 then Some (Return 0 (s\<lparr>s_blobs := bs, s_count := cnt, s_alloc := al\<rparr>))
          else
            (case bs of
               None \<Rightarrow> Some (Fault NullPointer)
             | Some arr \<Rightarrow>
                 (case load arr (cnt - 1) of
                    None \<Rightarrow> Some (Fault OutOfBounds)
                  | Some b \<Rightarrow>
                      (case contour_trace (trace_call e 1 (s_current s) i j) (s_label s)
                              (Some (external b)) al of
                         None \<Rightarrow> None
                       | Some (Inl f) \<Rightarrow> Some (Fault f)
                       | Some (Inr (rc', t)) \<Rightarrow>
                           Some (Continue
                             (s\<lparr>s_label := t_label t,
                                s_blobs := Some (arr[nat (cnt - 1) :=
                                  b\<lparr>label := s_current s,
                                    external := (case t_contour t of
                                                   None \<Rightarrow> external b | Some c \<Rightarrow> c)\<rparr>]),
                                s_count := cnt,
                                s_current := s16 (s_current s + 1),
                                s_alloc := t_alloc t\<rparr>))))))"

text \<open>
  Case 2 of the scan: a new internal contour of the blob \<open>current_label\<close>. The pointer
  \<^verbatim>\<open>*blobs + (current_label-1)\<close> is dereferenced in both branches.
\<close>

definition new_internal ::
  "scan_args \<Rightarrow> int \<Rightarrow> int \<Rightarrow> label_t \<Rightarrow> scan_state \<Rightarrow> scan_state flow option" where
  "new_internal e i j current_label s =
     (case s_blobs s of
        None \<Rightarrow> Some (Fault NullPointer)
      | Some arr \<Rightarrow>
          (case load arr (current_label - 1) of
             None \<Rightarrow> Some (Fault OutOfBounds)
           | Some current_blob \<Rightarrow>
               if f_extract_internal e \<noteq> 0 then
                 (case blob_add_internal current_blob (s_alloc s) of
                    (rc, b, al) \<Rightarrow>
                      if rc = 0 then Some (Return 0 (s\<lparr>s_alloc := al\<rparr>))
                      else
                        (case internal b of
                           None \<Rightarrow> Some (Fault NullPointer)
                         | Some cs \<Rightarrow>
                             (case load cs (internal_count b - 1) of
                                None \<Rightarrow> Some (Fault OutOfBounds)
                              | Some c \<Rightarrow>
                                  (case contour_trace (trace_call e 0 current_label i j)
                                          (s_label s) (Some c) al of
                                     None \<Rightarrow> None
                                   | Some (Inl f) \<Rightarrow> Some (Fault f)
                                   | Some (Inr (rc', t)) \<Rightarrow>
                                       Some (Continue
                                         (s\<lparr>s_label := t_label t,
                                            s_blobs := Some (arr[nat (current_label - 1) :=
                                              b\<lparr>internal := Some (cs[nat (internal_count b - 1) :=
                                                (case t_contour t of None \<Rightarrow> c | Some c' \<Rightarrow> c')])\<rparr>]),
                                            s_alloc := t_alloc t\<rparr>))))))
               else
                 (case contour_trace (trace_call e 0 current_label i j) (s_label s) None
                         (s_alloc s) of
                    None \<Rightarrow> None
                  | Some (Inl f) \<Rightarrow> Some (Fault f)
                  | Some (Inr (rc', t)) \<Rightarrow>
                      Some (Continue
                        (s\<lparr>s_label := t_label t,
                           s_blobs := Some (arr[nat (current_label - 1) :=
                             current_blob\<lparr>internal_count := internal_count current_blob + 1\<rparr>]),
                           s_alloc := t_alloc t\<rparr>)))))"

text \<open>
  The body of the inner \<^verbatim>\<open>for\<close> loop at column \<open>i\<close> of row \<open>j\<close>. The pointers
  \<^verbatim>\<open>ptr_in\<close> and \<^verbatim>\<open>ptr_label\<close> advance by one per column and \<^verbatim>\<open>line_in\<close> by
  \<^verbatim>\<open>in_w\<close> per row, so they are the indices \<open>pin\<close> and \<open>pl\<close>.
\<close>

definition pixel_step :: "scan_args \<Rightarrow> int \<Rightarrow> int \<Rightarrow> scan_state \<Rightarrow> scan_state flow option" where
  "pixel_step e i j s =
     (let pin = f_roi_x e + f_in_w e * f_roi_y e + f_in_w e * j + i;
          pl = i + f_roi_w e * j
      in case load (f_in e) pin of
           None \<Rightarrow> Some (Fault OutOfBounds)
         | Some p \<Rightarrow>
             if p = 0 then Some (Continue s)
             else
               (case (if j > 0 then load (f_in e) (pin - f_in_w e) else Some 0) of
                  None \<Rightarrow> Some (Fault OutOfBounds)
                | Some above_in \<Rightarrow>
               (case (if j < f_roi_h e - 1 then load (f_in e) (pin + f_in_w e) else Some 0) of
                  None \<Rightarrow> Some (Fault OutOfBounds)
                | Some below_in \<Rightarrow>
               (case (if j < f_roi_h e - 1 then load (s_label s) (pl + f_roi_w e)
                      else Some (- 1)) of
                  None \<Rightarrow> Some (Fault OutOfBounds)
                | Some below_label \<Rightarrow>
               (case load (s_label s) pl of
                  None \<Rightarrow> Some (Fault OutOfBounds)
                | Some cur \<Rightarrow>
                    if cur = 0 \<and> above_in = 0 then new_external e i j s
                    else if below_in = 0 \<and> below_label = 0 then
                      (case (if cur \<noteq> 0 then Some cur else load (s_label s) (pl - 1)) of
                         None \<Rightarrow> Some (Fault OutOfBounds)
                       | Some current_label \<Rightarrow> new_internal e i j current_label s)
                    else if cur = 0 then
                      (case (if i > 0 then load (s_label s) (pl - 1) else Some 0) of
                         None \<Rightarrow> Some (Fault OutOfBounds)
                       | Some v \<Rightarrow>
                           (case store (s_label s) pl v of
                              None \<Rightarrow> Some (Fault OutOfBounds)
                            | Some l' \<Rightarrow> Some (Continue (s\<lparr>s_label := l'\<rparr>))))
                    else Some (Continue s))))))"

text \<open>
  The two \<^verbatim>\<open>for\<close> loops. The counters stay below \<^verbatim>\<open>roi_w\<close> and \<^verbatim>\<open>roi_h\<close>, which are
  16-bit values, so \<^verbatim>\<open>i++\<close> and \<^verbatim>\<open>j++\<close> never wrap.
\<close>

function scan_cols :: "scan_args \<Rightarrow> int \<Rightarrow> int \<Rightarrow> scan_state \<Rightarrow> scan_state flow option" where
  "scan_cols e j i s =
     (if i < f_roi_w e then
        (case pixel_step e i j s of
           Some (Continue s') \<Rightarrow> scan_cols e j (i + 1) s'
         | r \<Rightarrow> r)
      else Some (Continue s))"
  by pat_completeness auto
termination
  by (relation "measure (\<lambda>(e, j, i, s). nat (f_roi_w e - i))") auto

declare scan_cols.simps [simp del]

function scan_rows :: "scan_args \<Rightarrow> int \<Rightarrow> scan_state \<Rightarrow> scan_state flow option" where
  "scan_rows e j s =
     (if j < f_roi_h e then
        (case scan_cols e j 0 s of
           Some (Continue s') \<Rightarrow> scan_rows e (j + 1) s'
         | r \<Rightarrow> r)
      else Some (Continue s))"
  by pat_completeness auto
termination
  by (relation "measure (\<lambda>(e, j, s). nat (f_roi_h e - j))") auto

declare scan_rows.simps [simp del]

section \<open>find_blobs\<close>

text \<open>
  The caller's five output cells. \<^verbatim>\<open>find_blobs\<close> receives pointers to them; the model
  receives their contents before the call, or \<open>None\<close> when one of the five pointers is
  null, and returns their contents after the call.
\<close>

record outputs =
  o_label :: "label_t list option"
  o_label_w :: int
  o_label_h :: int
  o_blobs :: "blob_t list option"
  o_count :: int

text \<open>
  The ROI adjustment at the entry of \<^verbatim>\<open>find_blobs\<close>: \<open>None\<close> where the code returns 1
  with "nothing to do", the adjusted rectangle otherwise.
\<close>

definition adjust_roi ::
  "int \<Rightarrow> int \<Rightarrow> int \<Rightarrow> int \<Rightarrow> int \<Rightarrow> int \<Rightarrow> (int \<times> int \<times> int \<times> int) option" where
  "adjust_roi roi_x roi_y roi_w roi_h in_w in_h =
     (if roi_x \<ge> in_w \<or> roi_y \<ge> in_h then None
      else
        (let roi_x1 = (if roi_x < 0 then 0 else roi_x);
             roi_y1 = (if roi_y < 0 then 0 else roi_y);
             roi_w1 = (if roi_x1 + roi_w > in_w then s16 (in_w - roi_x1) else roi_w);
             roi_h1 = (if roi_y1 + roi_h > in_h then s16 (in_h - roi_h) else roi_h)
         in if roi_w1 \<le> 0 \<or> roi_h1 \<le> 0 then None
            else Some (roi_x1, roi_y1, roi_w1, roi_h1)))"

definition scan_init :: "int \<Rightarrow> int \<Rightarrow> bool list \<Rightarrow> scan_state" where
  "scan_init rw rh al =
     \<lparr>s_label = replicate (nat (rw * rh)) 0, s_blobs = None,
      s_count = 0, s_current = 1, s_alloc = al\<rparr>"

definition scan_result :: "outputs \<Rightarrow> scan_state \<Rightarrow> outputs" where
  "scan_result out s =
     out\<lparr>o_label := Some (s_label s), o_blobs := s_blobs s, o_count := s_count s\<rparr>"

text \<open>
  \<^verbatim>\<open>find_blobs\<close>. The 16-bit arguments are converted on entry. The test after
  \<^verbatim>\<open>malloc\<close> compares the pointer \<^verbatim>\<open>label\<close>, which is known not to be null, so a
  failed \<^verbatim>\<open>malloc\<close> reaches \<^verbatim>\<open>memset\<close> with a null pointer.
\<close>

definition find_blobs ::
  "int \<Rightarrow> int \<Rightarrow> int \<Rightarrow> int \<Rightarrow> uint8_t list \<Rightarrow> int \<Rightarrow> int \<Rightarrow> outputs option \<Rightarrow> int \<Rightarrow> bool list
     \<Rightarrow> (fault + int \<times> outputs option) option" where
  "find_blobs roi_x roi_y roi_w roi_h inp in_w in_h out extract_internal al =
     (case out of
        None \<Rightarrow> Some (Inr (0, None))
      | Some out0 \<Rightarrow>
          (let out1 = out0\<lparr>o_blobs := None, o_count := 0\<rparr> in
           case adjust_roi (s16 roi_x) (s16 roi_y) (s16 roi_w) (s16 roi_h) (s16 in_w) (s16 in_h) of
             None \<Rightarrow> Some (Inr (1, Some out1))
           | Some (rx, ry, rw, rh) \<Rightarrow>
               (case alloc al of
                  (False, al') \<Rightarrow> Some (Inl NullPointer)
                | (True, al') \<Rightarrow>
                    (let out2 = out1\<lparr>o_label_w := rw, o_label_h := rh\<rparr>;
                         e = \<lparr>f_roi_x = rx, f_roi_y = ry, f_roi_w = rw, f_roi_h = rh,
                              f_in = inp, f_in_w = s16 in_w,
                              f_extract_internal = extract_internal\<rparr>
                     in case scan_rows e 0 (scan_init rw rh al') of
                          None \<Rightarrow> None
                        | Some (Continue s) \<Rightarrow> Some (Inr (1, Some (scan_result out2 s)))
                        | Some (Return rc s) \<Rightarrow> Some (Inr (rc, Some (scan_result out2 s)))
                        | Some (Fault f) \<Rightarrow> Some (Inl f)))))"

section \<open>Observations of a call\<close>

text \<open>
  The caller's cells as \<^verbatim>\<open>label.c\<close> sets them up before the call, and what a caller
  reads after it: the return value, the label buffer with its dimensions, the blobs.
\<close>

definition fresh_outputs :: outputs where
  "fresh_outputs = \<lparr>o_label = None, o_label_w = 0, o_label_h = 0, o_blobs = None, o_count = 0\<rparr>"

definition return_code :: "(fault + int \<times> outputs option) option \<Rightarrow> int option" where
  "return_code r = (case r of Some (Inr (rc, out)) \<Rightarrow> Some rc | _ \<Rightarrow> None)"

definition labels_of :: "(fault + int \<times> outputs option) option \<Rightarrow> label_t list option" where
  "labels_of r = (case r of Some (Inr (rc, Some out)) \<Rightarrow> o_label out | _ \<Rightarrow> None)"

definition label_dims :: "(fault + int \<times> outputs option) option \<Rightarrow> (int \<times> int) option" where
  "label_dims r =
     (case r of Some (Inr (rc, Some out)) \<Rightarrow> Some (o_label_w out, o_label_h out) | _ \<Rightarrow> None)"

definition blobs_of :: "(fault + int \<times> outputs option) option \<Rightarrow> blob_t list option" where
  "blobs_of r = (case r of Some (Inr (rc, Some out)) \<Rightarrow> o_blobs out | _ \<Rightarrow> None)"

definition state_labels :: "scan_state flow option \<Rightarrow> label_t list option" where
  "state_labels r = (case r of Some (Continue s) \<Rightarrow> Some (s_label s) | _ \<Rightarrow> None)"

section \<open>Notions used in the statements and proofs\<close>

text \<open>An allocator that refuses no request.\<close>

definition granting :: "bool list \<Rightarrow> bool" where
  "granting al = list_all (\<lambda>b. b) al"

text \<open>
  The tracer's view of the mask: a position inside the ROI, the mask byte there, and a
  position that the tracer accepts as foreground.
\<close>

definition in_roi :: "trace_args \<Rightarrow> int \<Rightarrow> int \<Rightarrow> bool" where
  "in_roi a x1 y1 = (0 \<le> x1 \<and> x1 < a_roi_w a \<and> 0 \<le> y1 \<and> y1 < a_roi_h a)"

definition mask_at :: "trace_args \<Rightarrow> int \<Rightarrow> int \<Rightarrow> uint8_t option" where
  "mask_at a x1 y1 = load (a_in a) (a_base a + x1 + a_line_stride a * y1)"

definition fg_at :: "trace_args \<Rightarrow> int \<Rightarrow> int \<Rightarrow> bool" where
  "fg_at a x1 y1 =
     (in_roi a x1 y1 \<and> (case mask_at a x1 y1 of None \<Rightarrow> False | Some p \<Rightarrow> p \<noteq> 0))"

text \<open>
  The parts of one pass through the body of the neighbour loop: the neighbour looked at,
  the state after \<^verbatim>\<open>continue\<close>, the state after \<^verbatim>\<open>break\<close>.
\<close>

definition nb_x :: "trace_state \<Rightarrow> int" where
  "nb_x s = s16 (t_x0 s + dx (t_i s))"

definition nb_y :: "trace_state \<Rightarrow> int" where
  "nb_y s = s16 (t_y0 s + dy (t_i s))"

definition skip :: "trace_state \<Rightarrow> trace_state" where
  "skip s = s\<lparr>t_j := t_j s + 1, t_i := (t_i s + 1) AND 7\<rparr>"

definition accept :: "trace_args \<Rightarrow> trace_state \<Rightarrow> label_t list \<Rightarrow> trace_state" where
  "accept a s l' =
     (if t_xx s < 0 \<and> t_yy s < 0
      then s\<lparr>t_label := l', t_xx := nb_x s, t_yy := nb_y s, t_x0 := nb_x s, t_y0 := nb_y s\<rparr>
      else s\<lparr>t_label := l',
             t_done := ((a_x a = t_x0 s \<and> t_xx s = nb_x s) \<and> (a_y a = t_y0 s \<and> t_yy s = nb_y s)),
             t_x0 := nb_x s, t_y0 := nb_y s\<rparr>)"

text \<open>
  The walk of the tracer does not depend on the contour it records or on the allocator:
  \<open>same_walk\<close> compares the rest of two states, \<open>with_contour\<close> swaps those two parts.
\<close>

definition same_walk :: "trace_state \<Rightarrow> trace_state \<Rightarrow> bool" where
  "same_walk s1 s2 =
     (t_i s1 = t_i s2 \<and> t_j s1 = t_j s2 \<and> t_x0 s1 = t_x0 s2 \<and> t_y0 s1 = t_y0 s2
      \<and> t_xx s1 = t_xx s2 \<and> t_yy s1 = t_yy s2 \<and> t_done s1 = t_done s2
      \<and> t_label s1 = t_label s2)"

definition with_contour :: "contour_t option \<Rightarrow> bool list \<Rightarrow> trace_state \<Rightarrow> trace_state" where
  "with_contour c al s = s\<lparr>t_contour := c, t_alloc := al\<rparr>"

text \<open>What a successful \<^verbatim>\<open>contour_add_point\<close> makes of a contour.\<close>

definition pushed :: "contour_t \<Rightarrow> int \<Rightarrow> int \<Rightarrow> contour_t" where
  "pushed c px py =
     (if count c = capacity c
      then c\<lparr>capacity := (if capacity c \<noteq> 0 then capacity c * 2 else 32),
             points := points c @ [(s16 px, s16 py)], count := count c + 1\<rparr>
      else c\<lparr>points := points c @ [(s16 px, s16 py)], count := count c + 1\<rparr>)"

text \<open>The end of an iteration of the \<^verbatim>\<open>while\<close> loop, after the neighbour loop.\<close>

definition finish :: "trace_state \<Rightarrow> trace_state" where
  "finish s1 =
     (let s2 = (if t_j s1 = 8 then s1\<lparr>t_done := True\<rparr> else s1)
      in s2\<lparr>t_i := (((t_i s2 + 4) AND 7) + 2) AND 7\<rparr>)"

definition walk_step :: "trace_args \<Rightarrow> trace_state \<Rightarrow> fault + trace_state" where
  "walk_step a s = map_sum id finish (neighbour_scan a (s\<lparr>t_j := 0\<rparr>))"

definition tsim :: "trace_state \<Rightarrow> trace_state \<Rightarrow> bool" where
  "tsim s1 s2 =
     (same_walk s1 s2 \<and> granting (t_alloc s1) \<and> granting (t_alloc s2)
      \<and> (t_contour s1 = None \<or> t_contour s2 = None \<or> t_contour s1 = t_contour s2))"

definition rsim :: "fault + int \<times> trace_state \<Rightarrow> fault + int \<times> trace_state \<Rightarrow> bool" where
  "rsim r1 r2 = rel_sum (=) (\<lambda>(rc1, t1) (rc2, t2). rc1 = rc2 \<and> tsim t1 t2) r1 r2"

text \<open>
  A contour point in absolute raster coordinates: the ROI origin added to a position of
  the ROI, as a pair of 16-bit values. \<open>extends a ne c c'\<close>: the contour \<open>c'\<close> is \<open>c\<close>
  with such points appended, at least one if \<open>ne\<close>.
\<close>

definition abs_point :: "trace_args \<Rightarrow> int \<times> int \<Rightarrow> bool" where
  "abs_point a p = (\<exists>x y. in_roi a x y \<and> p = (s16 (a_roi_x a + x), s16 (a_roi_y a + y)))"

definition extends :: "trace_args \<Rightarrow> bool \<Rightarrow> contour_t \<Rightarrow> contour_t \<Rightarrow> bool" where
  "extends a nonempty c c' =
     (\<exists>ps. points c' = points c @ ps \<and> count c' = count c + int (length ps)
           \<and> (nonempty \<longrightarrow> ps \<noteq> []) \<and> list_all (abs_point a) ps)"

text \<open>A property of the state wherever a piece of the scan leaves one.\<close>

definition flow_all :: "('s \<Rightarrow> bool) \<Rightarrow> 's flow option \<Rightarrow> bool" where
  "flow_all I r = (case r of Some (Continue s) \<Rightarrow> I s | Some (Return rc s) \<Rightarrow> I s | _ \<Rightarrow> True)"

definition blob_list :: "blob_t list option \<Rightarrow> blob_t list" where
  "blob_list b = (case b of None \<Rightarrow> [] | Some bs \<Rightarrow> bs)"

definition contour_list :: "contour_t list option \<Rightarrow> contour_t list" where
  "contour_list b = (case b of None \<Rightarrow> [] | Some cs \<Rightarrow> cs)"


definition hole_ok :: "int \<Rightarrow> blob_t \<Rightarrow> bool" where
  "hole_ok ex b =
     (0 \<le> internal_count b \<and> (ex = 0 \<longrightarrow> internal b = None)
      \<and> (internal b \<noteq> None \<longrightarrow> ex \<noteq> 0 \<and> 1 \<le> internal_count b))"

definition holes_ok :: "int \<Rightarrow> scan_state \<Rightarrow> bool" where
  "holes_ok ex s = list_all (hole_ok ex) (blob_list (s_blobs s))"

definition ext_ok :: "trace_args \<Rightarrow> blob_t \<Rightarrow> bool" where
  "ext_ok a b =
     (points (external b) \<noteq> [] \<and> count (external b) = int (length (points (external b)))
      \<and> list_all (abs_point a) (points (external b)))"

definition exts_ok :: "scan_args \<Rightarrow> scan_state \<Rightarrow> bool" where
  "exts_ok e s =
     (granting (s_alloc s) \<and> s_count s = int (length (blob_list (s_blobs s)))
      \<and> list_all (ext_ok (trace_call e 0 0 0 0)) (blob_list (s_blobs s)))"

text \<open>What the neighbour loop has established when it ends in the state \<open>s'\<close>.\<close>

definition nb_of :: "trace_state \<Rightarrow> int \<Rightarrow> int \<times> int" where
  "nb_of s d = (s16 (t_x0 s + dx d), s16 (t_y0 s + dy d))"

definition scan_post :: "trace_args \<Rightarrow> trace_state \<Rightarrow> trace_state \<Rightarrow> bool" where
  "scan_post a s s' =
     (t_j s \<le> t_j s' \<and> (t_j s \<le> 8 \<longrightarrow> t_j s' \<le> 8)
      \<and> t_i s' = (t_i s + (t_j s' - t_j s)) mod 8
      \<and> (\<forall>k. 0 \<le> k \<and> k < t_j s' - t_j s \<longrightarrow>
             \<not> fg_at a (fst (nb_of s ((t_i s + k) mod 8))) (snd (nb_of s ((t_i s + k) mod 8))))
      \<and> (t_j s' < 8 \<longrightarrow>
             fg_at a (t_x0 s') (t_y0 s') \<and> (t_x0 s', t_y0 s') = nb_of s (t_i s'))
      \<and> (\<not> t_j s' < 8 \<longrightarrow>
             t_x0 s' = t_x0 s \<and> t_y0 s' = t_y0 s \<and> t_xx s' = t_xx s \<and> t_yy s' = t_yy s
             \<and> t_done s' = t_done s))"

text \<open>
  A start pixel all of whose neighbours are outside the ROI or background, in a ROI of
  16-bit dimensions; \<open>mask_frame\<close>: only cells of background pixels differ.
\<close>

definition roi_dims_ok :: "trace_args \<Rightarrow> bool" where
  "roi_dims_ok a = (0 < a_roi_w a \<and> a_roi_w a \<le> 32767 \<and> 0 < a_roi_h a \<and> a_roi_h a \<le> 32767)"

definition isolated :: "trace_args \<Rightarrow> bool" where
  "isolated a =
     list_all (\<lambda>d. \<not> in_roi a (a_x a + dx d) (a_y a + dy d)
                  \<or> mask_at a (a_x a + dx d) (a_y a + dy d) = Some 0)
       [0, 1, 2, 3, 4, 5, 6, 7]"

definition mask_frame :: "trace_args \<Rightarrow> label_t list \<Rightarrow> label_t list \<Rightarrow> bool" where
  "mask_frame a l l' =
     (length l' = length l
      \<and> (\<forall>x y. in_roi a x y \<and> mask_at a x y \<noteq> Some 0 \<longrightarrow>
             l' ! nat (x + a_roi_w a * y) = l ! nat (x + a_roi_w a * y)))"

definition at_isolated_start :: "trace_args \<Rightarrow> trace_state \<Rightarrow> bool" where
  "at_isolated_start a s =
     (t_x0 s = a_x a \<and> t_y0 s = a_y a \<and> 0 \<le> t_i s \<and> t_i s < 8
      \<and> length (t_label s) = nat (a_roi_w a * a_roi_h a))"

text \<open>
  What \<^verbatim>\<open>find_blobs\<close> does at a pixel, decided from the mask and the label buffer
  alone, and the carrying out of that decision.
\<close>

datatype action = Skip | External | Internal label_t | Interior "label_t list"

definition classify :: "scan_args \<Rightarrow> int \<Rightarrow> int \<Rightarrow> label_t list \<Rightarrow> fault + action" where
  "classify e i j lbl =
     (let pin = f_roi_x e + f_in_w e * f_roi_y e + f_in_w e * j + i;
          pl = i + f_roi_w e * j
      in case load (f_in e) pin of
           None \<Rightarrow> Inl OutOfBounds
         | Some p \<Rightarrow>
             if p = 0 then Inr Skip
             else
               (case (if j > 0 then load (f_in e) (pin - f_in_w e) else Some 0) of
                  None \<Rightarrow> Inl OutOfBounds
                | Some above_in \<Rightarrow>
               (case (if j < f_roi_h e - 1 then load (f_in e) (pin + f_in_w e) else Some 0) of
                  None \<Rightarrow> Inl OutOfBounds
                | Some below_in \<Rightarrow>
               (case (if j < f_roi_h e - 1 then load lbl (pl + f_roi_w e) else Some (- 1)) of
                  None \<Rightarrow> Inl OutOfBounds
                | Some below_label \<Rightarrow>
               (case load lbl pl of
                  None \<Rightarrow> Inl OutOfBounds
                | Some cur \<Rightarrow>
                    if cur = 0 \<and> above_in = 0 then Inr External
                    else if below_in = 0 \<and> below_label = 0 then
                      (case (if cur \<noteq> 0 then Some cur else load lbl (pl - 1)) of
                         None \<Rightarrow> Inl OutOfBounds
                       | Some current_label \<Rightarrow> Inr (Internal current_label))
                    else if cur = 0 then
                      (case (if i > 0 then load lbl (pl - 1) else Some 0) of
                         None \<Rightarrow> Inl OutOfBounds
                       | Some v \<Rightarrow>
                           (case store lbl pl v of
                              None \<Rightarrow> Inl OutOfBounds
                            | Some l' \<Rightarrow> Inr (Interior l')))
                    else Inr Skip)))))"

definition perform :: "scan_args \<Rightarrow> int \<Rightarrow> int \<Rightarrow> scan_state \<Rightarrow> fault + action \<Rightarrow> scan_state flow option" where
  "perform e i j s r =
     (case r of
        Inl f \<Rightarrow> Some (Fault f)
      | Inr Skip \<Rightarrow> Some (Continue s)
      | Inr External \<Rightarrow> new_external e i j s
      | Inr (Internal current_label) \<Rightarrow> new_internal e i j current_label s
      | Inr (Interior l') \<Rightarrow> Some (Continue (s\<lparr>s_label := l'\<rparr>)))"

definition same_scene :: "scan_args \<Rightarrow> scan_args \<Rightarrow> bool" where
  "same_scene e1 e0 =
     (f_roi_x e1 = f_roi_x e0 \<and> f_roi_y e1 = f_roi_y e0 \<and> f_roi_w e1 = f_roi_w e0
      \<and> f_roi_h e1 = f_roi_h e0 \<and> f_in e1 = f_in e0 \<and> f_in_w e1 = f_in_w e0
      \<and> f_extract_internal e1 \<noteq> 0 \<and> f_extract_internal e0 = 0)"

definition blob_sim :: "blob_t \<Rightarrow> blob_t \<Rightarrow> bool" where
  "blob_sim b1 b0 =
     (label b1 = label b0 \<and> external b1 = external b0 \<and> internal_count b1 = internal_count b0
      \<and> internal b0 = None \<and> internal_count b1 = int (length (contour_list (internal b1))))"

definition scan_sim :: "scan_state \<Rightarrow> scan_state \<Rightarrow> bool" where
  "scan_sim s1 s0 =
     (s_label s1 = s_label s0 \<and> s_count s1 = s_count s0 \<and> s_current s1 = s_current s0
      \<and> granting (s_alloc s1) \<and> granting (s_alloc s0)
      \<and> list_all2 blob_sim (blob_list (s_blobs s1)) (blob_list (s_blobs s0))
      \<and> (s_blobs s1 = None) = (s_blobs s0 = None))"

definition flow_sim :: "scan_state flow option \<Rightarrow> scan_state flow option \<Rightarrow> bool" where
  "flow_sim r1 r0 =
     (case (r1, r0) of
        (None, None) \<Rightarrow> True
      | (Some (Continue s1), Some (Continue s0)) \<Rightarrow> scan_sim s1 s0
      | (Some (Return rc1 s1), Some (Return rc0 s0)) \<Rightarrow> rc1 = rc0 \<and> scan_sim s1 s0
      | (Some (Fault f1), Some (Fault f0)) \<Rightarrow> f1 = f0
      | _ \<Rightarrow> False)"

definition blob_summary :: "blob_t \<Rightarrow> label_t \<times> contour_t \<times> int" where
  "blob_summary b = (label b, external b, internal_count b)"

definition output_summary ::
  "outputs \<Rightarrow> label_t list option \<times> int \<times> int \<times> int \<times> (label_t \<times> contour_t \<times> int) list option" where
  "output_summary out =
     (o_label out, o_label_w out, o_label_h out, o_count out,
      map_option (map blob_summary) (o_blobs out))"

definition call_summary ::
  "(fault + int \<times> outputs option) option
     \<Rightarrow> (fault + int \<times> (label_t list option \<times> int \<times> int \<times> int
            \<times> (label_t \<times> contour_t \<times> int) list option) option) option" where
  "call_summary r = map_option (map_sum id (\<lambda>(rc, out). (rc, map_option output_summary out))) r"

text \<open>
  The scan's view of the mask, a mask whose foreground pixels all stand alone, the number
  of foreground pixels before a raster position, and what holds when the scan reaches
  that position in such a mask.
\<close>

definition pixel :: "scan_args \<Rightarrow> int \<Rightarrow> int \<Rightarrow> uint8_t option" where
  "pixel e x y = load (f_in e) (f_roi_x e + f_in_w e * f_roi_y e + f_in_w e * y + x)"

definition in_frame :: "scan_args \<Rightarrow> int \<Rightarrow> int \<Rightarrow> bool" where
  "in_frame e x y = (0 \<le> x \<and> x < f_roi_w e \<and> 0 \<le> y \<and> y < f_roi_h e)"






text \<open>
  A walk of the tracer that stands on a foreground pixel of the ROI, with the search
  index in range and a label buffer of the size of the ROI.
\<close>

definition on_fg :: "trace_args \<Rightarrow> trace_state \<Rightarrow> bool" where
  "on_fg a s =
     (in_roi a (t_x0 s) (t_y0 s) \<and> mask_at a (t_x0 s) (t_y0 s) \<noteq> Some 0
      \<and> 0 \<le> t_i s \<and> t_i s < 8 \<and> length (t_label s) = nat (a_roi_w a * a_roi_h a))"

text \<open>
  A foreground pixel of the ROI whose eight neighbours are outside the ROI or background,
  the contour that consists of that pixel alone, and what holds for such a pixel when
  the scan is at the raster position \<open>n\<close>: before the scan reaches the pixel its label
  is 0, afterwards some blob has that contour as its external contour.
\<close>

definition lone :: "scan_args \<Rightarrow> int \<Rightarrow> int \<Rightarrow> bool" where
  "lone e x y =
     (in_frame e x y \<and> (case pixel e x y of None \<Rightarrow> False | Some p \<Rightarrow> p \<noteq> 0)
      \<and> isolated (trace_call e 1 0 x y))"

definition one_point :: "scan_args \<Rightarrow> int \<Rightarrow> int \<Rightarrow> contour_t" where
  "one_point e x y =
     \<lparr>count = 1, capacity = 32, points = [(s16 (f_roi_x e + x), s16 (f_roi_y e + y))]\<rparr>"

definition lone_inv :: "scan_args \<Rightarrow> int \<Rightarrow> int \<Rightarrow> nat \<Rightarrow> scan_state \<Rightarrow> bool" where
  "lone_inv e x y n s =
     (length (s_label s) = nat (f_roi_w e * f_roi_h e)
      \<and> granting (s_alloc s)
      \<and> s_count s = int (length (blob_list (s_blobs s)))
      \<and> (if n \<le> nat (x + f_roi_w e * y) then s_label s ! nat (x + f_roi_w e * y) = 0
         else one_point e x y \<in> set (map external (blob_list (s_blobs s)))))"

definition reaches :: "(scan_state \<Rightarrow> bool) \<Rightarrow> scan_state flow option \<Rightarrow> bool" where
  "reaches K r = (case r of Some (Continue s) \<Rightarrow> K s | Some (Return rc s) \<Rightarrow> False | _ \<Rightarrow> True)"








section \<open>The tracer: one pass over the neighbours\<close>

lemma and7: "(i::int) AND 7 = i mod 8"
  using take_bit_eq_mask[of 3 i] by (simp add: take_bit_eq_mod mask_eq_exp_minus_1)

lemma alloc_granting: "granting al \<Longrightarrow> \<exists>al'. alloc al = (True, al') \<and> granting al'"
  by (cases al) (auto simp: granting_def)

lemma neighbour_scan_stop: "\<not> t_j s < 8 \<Longrightarrow> neighbour_scan a s = Inr s"
  by (subst neighbour_scan.simps) simp

lemma neighbour_scan_step:
  "t_j s < 8 \<Longrightarrow> neighbour_scan a s =
     (if \<not> in_roi a (nb_x s) (nb_y s) then neighbour_scan a (skip s)
      else case mask_at a (nb_x s) (nb_y s) of
             None \<Rightarrow> Inl OutOfBounds
           | Some p \<Rightarrow>
               if p \<noteq> 0 then
                 (case store (t_label s) (nb_x s + a_roi_w a * nb_y s) (a_current a) of
                    None \<Rightarrow> Inl OutOfBounds
                  | Some l' \<Rightarrow> Inr (accept a s l'))
               else
                 (case store (t_label s) (nb_x s + a_roi_w a * nb_y s) (- 1) of
                    None \<Rightarrow> Inl OutOfBounds
                  | Some l' \<Rightarrow> neighbour_scan a ((skip s)\<lparr>t_label := l'\<rparr>)))"
  apply (subst neighbour_scan.simps)
  apply (simp only: Let_def in_roi_def mask_at_def nb_x_def nb_y_def skip_def accept_def)
  apply (simp split: option.splits)
  done

lemma neighbour_scan_cases [case_names stop out unreadable fg fg_fault bg bg_fault]:
  assumes "\<And>s. \<not> t_j s < 8 \<Longrightarrow> P s (Inr s)"
    and "\<And>s. t_j s < 8 \<Longrightarrow> \<not> in_roi a (nb_x s) (nb_y s)
            \<Longrightarrow> P (skip s) (neighbour_scan a (skip s)) \<Longrightarrow> P s (neighbour_scan a (skip s))"
    and "\<And>s. t_j s < 8 \<Longrightarrow> in_roi a (nb_x s) (nb_y s) \<Longrightarrow> mask_at a (nb_x s) (nb_y s) = None
            \<Longrightarrow> P s (Inl OutOfBounds)"
    and "\<And>s p l'. t_j s < 8 \<Longrightarrow> in_roi a (nb_x s) (nb_y s) \<Longrightarrow> mask_at a (nb_x s) (nb_y s) = Some p
            \<Longrightarrow> p \<noteq> 0 \<Longrightarrow> store (t_label s) (nb_x s + a_roi_w a * nb_y s) (a_current a) = Some l'
            \<Longrightarrow> P s (Inr (accept a s l'))"
    and "\<And>s p. t_j s < 8 \<Longrightarrow> in_roi a (nb_x s) (nb_y s) \<Longrightarrow> mask_at a (nb_x s) (nb_y s) = Some p
            \<Longrightarrow> p \<noteq> 0 \<Longrightarrow> store (t_label s) (nb_x s + a_roi_w a * nb_y s) (a_current a) = None
            \<Longrightarrow> P s (Inl OutOfBounds)"
    and "\<And>s l'. t_j s < 8 \<Longrightarrow> in_roi a (nb_x s) (nb_y s) \<Longrightarrow> mask_at a (nb_x s) (nb_y s) = Some 0
            \<Longrightarrow> store (t_label s) (nb_x s + a_roi_w a * nb_y s) (- 1) = Some l'
            \<Longrightarrow> P ((skip s)\<lparr>t_label := l'\<rparr>) (neighbour_scan a ((skip s)\<lparr>t_label := l'\<rparr>))
            \<Longrightarrow> P s (neighbour_scan a ((skip s)\<lparr>t_label := l'\<rparr>))"
    and "\<And>s. t_j s < 8 \<Longrightarrow> in_roi a (nb_x s) (nb_y s) \<Longrightarrow> mask_at a (nb_x s) (nb_y s) = Some 0
            \<Longrightarrow> store (t_label s) (nb_x s + a_roi_w a * nb_y s) (- 1) = None
            \<Longrightarrow> P s (Inl OutOfBounds)"
  shows "P s (neighbour_scan a s)"
proof (induction "nat (8 - t_j s)" arbitrary: s)
  case 0
  then have "\<not> t_j s < 8" by simp
  then show ?case using assms(1) by (simp add: neighbour_scan_stop)
next
  case (Suc n)
  then have lt: "t_j s < 8" by simp
  have m1: "n = nat (8 - t_j (skip s))" using Suc.hyps(2) by (simp add: skip_def)
  have m2: "n = nat (8 - t_j ((skip s)\<lparr>t_label := l'\<rparr>))" for l'
    using Suc.hyps(2) by (simp add: skip_def)
  show ?case
  proof (cases "in_roi a (nb_x s) (nb_y s)")
    case False
    then show ?thesis
      using assms(2)[OF lt False Suc.hyps(1)[OF m1]] by (simp add: neighbour_scan_step[OF lt])
  next
    case True
    show ?thesis
    proof (cases "mask_at a (nb_x s) (nb_y s)")
      case None
      then show ?thesis using assms(3)[OF lt True None] True
        by (simp add: neighbour_scan_step[OF lt])
    next
      case (Some p)
      show ?thesis
      proof (cases "p = 0")
        case False
        show ?thesis
        proof (cases "store (t_label s) (nb_x s + a_roi_w a * nb_y s) (a_current a)")
          case None
          then show ?thesis using assms(5)[OF lt True Some False None] True Some False
            by (simp add: neighbour_scan_step[OF lt])
        next
          case (Some l')
          then show ?thesis using assms(4)[OF lt True \<open>mask_at a (nb_x s) (nb_y s) = Some p\<close> False Some] True
              \<open>mask_at a (nb_x s) (nb_y s) = Some p\<close> False
            by (simp add: neighbour_scan_step[OF lt])
        qed
      next
        case z: True
        show ?thesis
        proof (cases "store (t_label s) (nb_x s + a_roi_w a * nb_y s) (- 1)")
          case None
          then show ?thesis using assms(7)[OF lt True Some[unfolded z] None] True Some z
            by (simp add: neighbour_scan_step[OF lt])
        next
          case st: (Some l')
          show ?thesis using assms(6)[OF lt True Some[unfolded z] st Suc.hyps(1)[OF m2]] True Some z st
            by (simp add: neighbour_scan_step[OF lt])
        qed
      qed
    qed
  qed
qed

lemma neighbour_scan_frame:
  "case neighbour_scan a s of Inl f \<Rightarrow> True
   | Inr s' \<Rightarrow> t_contour s' = t_contour s \<and> t_alloc s' = t_alloc s
       \<and> length (t_label s') = length (t_label s)"
  by (rule neighbour_scan_cases[where a = a and s = s and
        P = "\<lambda>s r. case r of Inl f \<Rightarrow> True
           | Inr s' \<Rightarrow> t_contour s' = t_contour s \<and> t_alloc s' = t_alloc s
               \<and> length (t_label s') = length (t_label s)"])
     (auto simp: skip_def accept_def store_def split: sum.splits if_splits)

lemma with_contour_simps [simp]:
  "t_i (with_contour c al s) = t_i s" "t_j (with_contour c al s) = t_j s"
  "t_x0 (with_contour c al s) = t_x0 s" "t_y0 (with_contour c al s) = t_y0 s"
  "t_xx (with_contour c al s) = t_xx s" "t_yy (with_contour c al s) = t_yy s"
  "t_done (with_contour c al s) = t_done s" "t_label (with_contour c al s) = t_label s"
  "t_contour (with_contour c al s) = c" "t_alloc (with_contour c al s) = al"
  "nb_x (with_contour c al s) = nb_x s" "nb_y (with_contour c al s) = nb_y s"
  "skip (with_contour c al s) = with_contour c al (skip s)"
  "accept a (with_contour c al s) l' = with_contour c al (accept a s l')"
  "(with_contour c al s)\<lparr>t_label := l'\<rparr> = with_contour c al (s\<lparr>t_label := l'\<rparr>)"
  "(with_contour c al s)\<lparr>t_j := j'\<rparr> = with_contour c al (s\<lparr>t_j := j'\<rparr>)"
  "(with_contour c al s)\<lparr>t_i := i'\<rparr> = with_contour c al (s\<lparr>t_i := i'\<rparr>)"
  "(with_contour c al s)\<lparr>t_done := d'\<rparr> = with_contour c al (s\<lparr>t_done := d'\<rparr>)"
  "with_contour c al (with_contour c' al' s) = with_contour c al s"
  by (simp_all add: with_contour_def nb_x_def nb_y_def skip_def accept_def)

lemma same_walk_with_contour:
  "same_walk s1 s2 \<Longrightarrow> s2 = with_contour (t_contour s2) (t_alloc s2) s1"
  by (cases s1; cases s2) (simp add: same_walk_def with_contour_def)

lemma same_walk_with_contour_iff [simp]: "same_walk (with_contour c al s) s' = same_walk s s'"
  "same_walk s' (with_contour c al s) = same_walk s' s"
  by (simp_all add: same_walk_def)

lemma same_walk_refl [simp]: "same_walk s s"
  by (simp add: same_walk_def)

lemma neighbour_scan_with_contour:
  "neighbour_scan a (with_contour c al s) = map_sum id (with_contour c al) (neighbour_scan a s)"
proof (induction s rule: neighbour_scan_cases)
  case (stop s)
  then show ?case by (simp add: neighbour_scan_stop)
next
  case (out s)
  then show ?case by (simp add: neighbour_scan_step[of "with_contour c al s"])
next
  case (unreadable s)
  then show ?case by (simp add: neighbour_scan_step[of "with_contour c al s"])
next
  case (fg s p l')
  then show ?case by (simp add: neighbour_scan_step[of "with_contour c al s"])
next
  case (fg_fault s p)
  then show ?case by (simp add: neighbour_scan_step[of "with_contour c al s"])
next
  case (bg s l')
  then show ?case by (simp add: neighbour_scan_step[of "with_contour c al s"])
next
  case (bg_fault s)
  then show ?case by (simp add: neighbour_scan_step[of "with_contour c al s"])
qed


lemma contour_add_point_granting:
  "granting al \<Longrightarrow> \<exists>al'. contour_add_point c px py al = (1, pushed c px py, al') \<and> granting al'"
  using alloc_granting[of al] by (auto simp: contour_add_point_def pushed_def Let_def)

lemma finish_with_contour [simp]: "finish (with_contour c al s) = with_contour c al (finish s)"
  by (simp add: finish_def with_contour_def Let_def)

lemma same_walk_erase: "same_walk s1 s2 \<Longrightarrow> with_contour c al s1 = with_contour c al s2"
  by (cases s1; cases s2) (simp add: same_walk_def with_contour_def)

lemma map_sum_comp2: "map_sum id f (map_sum id g r) = map_sum id (f \<circ> g) r"
  by (cases r) simp_all

lemma walk_step_with_contour:
  "walk_step a (with_contour c al s) = map_sum id (with_contour c al) (walk_step a s)"
  by (cases "neighbour_scan a (s\<lparr>t_j := 0\<rparr>)")
     (simp_all add: walk_step_def neighbour_scan_with_contour)

lemma trace_body_unfold:
  "trace_body a s =
     (case (case t_contour s of
              None \<Rightarrow> (1, None, t_alloc s)
            | Some c \<Rightarrow>
                (case contour_add_point c (a_roi_x a + t_x0 s) (a_roi_y a + t_y0 s) (t_alloc s) of
                   (rc, c', al') \<Rightarrow> (rc, Some c', al'))) of
        (rc, c', al') \<Rightarrow>
          if rc = 0 then Return 0 (with_contour c' al' s)
          else (case walk_step a (with_contour c' al' s) of
                  Inl f \<Rightarrow> Fault f | Inr w \<Rightarrow> Continue w))"
  by (simp add: trace_body_def with_contour_def walk_step_def finish_def Let_def
        split: prod.splits sum.splits option.splits)

lemma trace_body_granting:
  assumes "granting (t_alloc s)"
  shows "\<exists>al'. granting al' \<and> trace_body a s =
     (case walk_step a s of
        Inl f \<Rightarrow> Fault f
      | Inr w \<Rightarrow> Continue (with_contour
            (map_option (\<lambda>c. pushed c (a_roi_x a + t_x0 s) (a_roi_y a + t_y0 s)) (t_contour s)) al' w))"
proof (cases "t_contour s")
  case None
  show ?thesis
    using assms None
    by (intro exI[of _ "t_alloc s"])
       (simp add: trace_body_unfold walk_step_with_contour split: sum.splits)
next
  case (Some c)
  obtain al' where al': "contour_add_point c (a_roi_x a + t_x0 s) (a_roi_y a + t_y0 s) (t_alloc s)
        = (1, pushed c (a_roi_x a + t_x0 s) (a_roi_y a + t_y0 s), al')" "granting al'"
    using contour_add_point_granting[OF assms] by blast
  show ?thesis
    using Some al'
    by (intro exI[of _ al'])
       (simp add: trace_body_unfold walk_step_with_contour split: sum.splits)
qed

lemma same_walk_walk_step:
  assumes "same_walk s1 s2"
  shows "rel_sum (=) same_walk (walk_step a s1) (walk_step a s2)"
proof -
  have "walk_step a s2 = map_sum id (with_contour (t_contour s2) (t_alloc s2)) (walk_step a s1)"
    using same_walk_with_contour[OF assms] walk_step_with_contour by metis
  then show ?thesis by (cases "walk_step a s1") simp_all
qed


lemma trace_loop_sim_aux:
  assumes run: "trace_loop a s1 = Some r1"
  shows "\<forall>s2. tsim s1 s2 \<longrightarrow> (\<exists>r2. trace_loop a s2 = Some r2 \<and> rsim r1 r2)"
proof (rule trace_loop.raw_induct[OF _ run,
        where P = "\<lambda>a s1 r1. \<forall>s2. tsim s1 s2 \<longrightarrow> (\<exists>r2. trace_loop a s2 = Some r2 \<and> rsim r1 r2)"],
       goal_cases)
  case (1 loop a s1 r1)
  note IH = 1(1) and eq = 1(2)
  show ?case
  proof (intro allI impI)
    fix s2
    assume sim: "tsim s1 s2"
    then have sw: "same_walk s1 s2" and g1: "granting (t_alloc s1)" and g2: "granting (t_alloc s2)"
      by (simp_all add: tsim_def)
    show "\<exists>r2. trace_loop a s2 = Some r2 \<and> rsim r1 r2"
    proof (cases "t_done s1")
      case True
      then have "t_done s2" using sw by (simp add: same_walk_def)
      then have "trace_loop a s2 = Some (Inr (1, s2))" by (subst trace_loop.simps) simp
      moreover have "r1 = Inr (1, s1)" using eq True by simp
      ultimately show ?thesis using sim by (simp add: rsim_def)
    next
      case False
      then have nd2: "\<not> t_done s2" using sw by (simp add: same_walk_def)
      obtain al1 where b1: "granting al1" "trace_body a s1 =
         (case walk_step a s1 of Inl f \<Rightarrow> Fault f
          | Inr w \<Rightarrow> Continue (with_contour
              (map_option (\<lambda>c. pushed c (a_roi_x a + t_x0 s1) (a_roi_y a + t_y0 s1)) (t_contour s1)) al1 w))"
        using trace_body_granting[OF g1] by blast
      obtain al2 where b2: "granting al2" "trace_body a s2 =
         (case walk_step a s2 of Inl f \<Rightarrow> Fault f
          | Inr w \<Rightarrow> Continue (with_contour
              (map_option (\<lambda>c. pushed c (a_roi_x a + t_x0 s2) (a_roi_y a + t_y0 s2)) (t_contour s2)) al2 w))"
        using trace_body_granting[OF g2] by blast
      have rel: "rel_sum (=) same_walk (walk_step a s1) (walk_step a s2)"
        by (rule same_walk_walk_step[OF sw])
      show ?thesis
      proof (cases "walk_step a s1")
        case (Inl f)
        then have "walk_step a s2 = Inl f" using rel by (cases "walk_step a s2") simp_all
        then have "trace_loop a s2 = Some (Inl f)"
          using nd2 b2 by (subst trace_loop.simps) simp
        moreover have "r1 = Inl f" using eq False b1 Inl by simp
        ultimately show ?thesis by (simp add: rsim_def)
      next
        case (Inr w1)
        then obtain w2 where w2: "walk_step a s2 = Inr w2" "same_walk w1 w2"
          using rel by (cases "walk_step a s2") simp_all
        let ?n1 = "with_contour
              (map_option (\<lambda>c. pushed c (a_roi_x a + t_x0 s1) (a_roi_y a + t_y0 s1)) (t_contour s1)) al1 w1"
        let ?n2 = "with_contour
              (map_option (\<lambda>c. pushed c (a_roi_x a + t_x0 s2) (a_roi_y a + t_y0 s2)) (t_contour s2)) al2 w2"
        have "loop a ?n1 = Some r1" using eq False b1 Inr by simp
        moreover have "tsim ?n1 ?n2"
          using sim w2(2) b1(1) b2(1) by (auto simp: tsim_def same_walk_def)
        ultimately obtain r2 where "trace_loop a ?n2 = Some r2" "rsim r1 r2"
          using IH by blast
        moreover have "trace_loop a s2 = trace_loop a ?n2"
          using nd2 b2 w2 by (subst trace_loop.simps) simp
        ultimately show ?thesis by simp
      qed
    qed
  qed
qed

lemma trace_loop_sim:
  assumes "trace_loop a s1 = Some r1" and "tsim s1 s2"
  shows "\<exists>r2. trace_loop a s2 = Some r2 \<and> rsim r1 r2"
  using trace_loop_sim_aux[OF assms(1)] assms(2) by blast


lemma neighbour_scan_position:
  "case neighbour_scan a s of Inl f \<Rightarrow> True
   | Inr s' \<Rightarrow> length (t_label s') = length (t_label s)
       \<and> (in_roi a (t_x0 s) (t_y0 s) \<longrightarrow> in_roi a (t_x0 s') (t_y0 s'))"
  by (rule neighbour_scan_cases[where a = a and s = s and
        P = "\<lambda>s r. case r of Inl f \<Rightarrow> True
           | Inr s' \<Rightarrow> length (t_label s') = length (t_label s)
               \<and> (in_roi a (t_x0 s) (t_y0 s) \<longrightarrow> in_roi a (t_x0 s') (t_y0 s'))"])
     (auto simp: skip_def accept_def store_def split: sum.splits if_splits)

lemma walk_step_position:
  "walk_step a s = Inr w \<Longrightarrow>
     length (t_label w) = length (t_label s)
     \<and> (in_roi a (t_x0 s) (t_y0 s) \<longrightarrow> in_roi a (t_x0 w) (t_y0 w))"
  using neighbour_scan_position[where a = a and s = "s\<lparr>t_j := 0\<rparr>"]
  by (auto simp: walk_step_def finish_def Let_def split: sum.splits)

lemma extends_refl: "extends a False c c"
  by (simp add: extends_def)

lemma extends_pushed:
  assumes "in_roi a x y" and "extends a ne (pushed c (a_roi_x a + x) (a_roi_y a + y)) c'"
  shows "extends a ne' c c'"
proof -
  let ?p = "(s16 (a_roi_x a + x), s16 (a_roi_y a + y))"
  obtain ps where ps: "points c' = points (pushed c (a_roi_x a + x) (a_roi_y a + y)) @ ps"
      "count c' = count (pushed c (a_roi_x a + x) (a_roi_y a + y)) + int (length ps)"
      "list_all (abs_point a) ps"
    using assms(2) by (auto simp: extends_def)
  have "abs_point a ?p" using assms(1) by (auto simp: abs_point_def)
  moreover have "points (pushed c (a_roi_x a + x) (a_roi_y a + y)) = points c @ [?p]"
    "count (pushed c (a_roi_x a + x) (a_roi_y a + y)) = count c + 1"
    by (simp_all add: pushed_def)
  ultimately have "points c' = points c @ (?p # ps) \<and> count c' = count c + int (length (?p # ps))
      \<and> (ne' \<longrightarrow> ?p # ps \<noteq> []) \<and> list_all (abs_point a) (?p # ps)"
    using ps by simp
  then show ?thesis unfolding extends_def by blast
qed

lemma trace_loop_result_aux:
  assumes run: "trace_loop a s = Some r"
  shows "\<forall>rc t. r = Inr (rc, t) \<longrightarrow> granting (t_alloc s) \<longrightarrow> in_roi a (t_x0 s) (t_y0 s) \<longrightarrow>
           rc = 1 \<and> granting (t_alloc t) \<and> length (t_label t) = length (t_label s)
           \<and> rel_option (extends a (\<not> t_done s)) (t_contour s) (t_contour t)"
proof (rule trace_loop.raw_induct[OF _ run,
        where P = "\<lambda>a s r. \<forall>rc t. r = Inr (rc, t) \<longrightarrow> granting (t_alloc s) \<longrightarrow> in_roi a (t_x0 s) (t_y0 s) \<longrightarrow>
           rc = 1 \<and> granting (t_alloc t) \<and> length (t_label t) = length (t_label s)
           \<and> rel_option (extends a (\<not> t_done s)) (t_contour s) (t_contour t)"],
       goal_cases)
  case (1 loop a s r)
  note IH = 1(1) and eq = 1(2)
  show ?case
  proof (intro allI impI)
    fix rc t
    assume r: "r = Inr (rc, t)" and g: "granting (t_alloc s)" and pos: "in_roi a (t_x0 s) (t_y0 s)"
    show "rc = 1 \<and> granting (t_alloc t) \<and> length (t_label t) = length (t_label s)
           \<and> rel_option (extends a (\<not> t_done s)) (t_contour s) (t_contour t)"
    proof (cases "t_done s")
      case True
      then have "r = Inr (1, s)" using eq by simp
      then show ?thesis using r g True
        by (cases "t_contour s") (simp_all add: extends_refl)
    next
      case False
      obtain al1 where b1: "granting al1" "trace_body a s =
         (case walk_step a s of Inl f \<Rightarrow> Fault f
          | Inr w \<Rightarrow> Continue (with_contour
              (map_option (\<lambda>c. pushed c (a_roi_x a + t_x0 s) (a_roi_y a + t_y0 s)) (t_contour s)) al1 w))"
        using trace_body_granting[OF g] by blast
      show ?thesis
      proof (cases "walk_step a s")
        case (Inl f)
        then show ?thesis using eq False b1 r by simp
      next
        case (Inr w)
        let ?n = "with_contour
              (map_option (\<lambda>c. pushed c (a_roi_x a + t_x0 s) (a_roi_y a + t_y0 s)) (t_contour s)) al1 w"
        have "loop a ?n = Some (Inr (rc, t))" using eq False b1 Inr r by simp
        from IH[OF this, rule_format, OF refl] b1(1) walk_step_position[OF Inr] pos
        have *: "rc = 1" "granting (t_alloc t)" "length (t_label t) = length (t_label s)"
          "rel_option (extends a (\<not> t_done w))
             (map_option (\<lambda>c. pushed c (a_roi_x a + t_x0 s) (a_roi_y a + t_y0 s)) (t_contour s))
             (t_contour t)"
          by simp_all
        have "rel_option (extends a (\<not> t_done s)) (t_contour s) (t_contour t)"
          using *(4) pos
          by (cases "t_contour s"; cases "t_contour t") (auto intro: extends_pushed)
        then show ?thesis using * by simp
      qed
    qed
  qed
qed

lemma contour_trace_result:
  assumes "contour_trace a lbl c al = Some (Inr (rc, t))" and "granting al"
    and "in_roi a (a_x a) (a_y a)"
  shows "rc = 1 \<and> granting (t_alloc t) \<and> length (t_label t) = length lbl
         \<and> rel_option (extends a True) c (t_contour t)"
proof -
  obtain l' where l': "store lbl (a_x a + a_roi_w a * a_y a) (a_current a) = Some l'"
    using assms(1) by (auto simp: contour_trace_def split: option.splits)
  have "trace_loop a (trace_init a l' c al) = Some (Inr (rc, t))"
    using assms(1) l' by (simp add: contour_trace_def)
  from trace_loop_result_aux[OF this, rule_format, OF refl] assms(2,3)
  have "rc = 1 \<and> granting (t_alloc t) \<and> length (t_label t) = length l'
         \<and> rel_option (extends a True) c (t_contour t)"
    by (simp add: trace_init_def)
  moreover have "length l' = length lbl"
    using l' by (auto simp: store_def split: if_splits)
  ultimately show ?thesis by simp
qed


lemma flow_all_simps [simp]:
  "flow_all I None" "flow_all I (Some (Fault f))"
  "flow_all I (Some (Continue s)) = I s" "flow_all I (Some (Return rc s)) = I s"
  by (simp_all add: flow_all_def)

lemma scan_cols_invariant:
  assumes "\<And>i s. 0 \<le> i \<Longrightarrow> i < f_roi_w e \<Longrightarrow> I s \<Longrightarrow> flow_all I (pixel_step e i j s)"
    and "0 \<le> i" and "I s"
  shows "flow_all I (scan_cols e j i s)"
  using assms
proof (induction e j i s rule: scan_cols.induct)
  case (1 e j i s)
  note step = "1.prems"(1)
  show ?case
  proof (cases "i < f_roi_w e")
    case False
    then show ?thesis using "1.prems"(3) by (subst scan_cols.simps) simp
  next
    case True
    have st: "flow_all I (pixel_step e i j s)"
      by (rule step[OF "1.prems"(2) True "1.prems"(3)])
    show ?thesis
    proof (cases "pixel_step e i j s")
      case None
      then show ?thesis using True by (subst scan_cols.simps) simp
    next
      case (Some r)
      show ?thesis
      proof (cases r)
        case (Continue s')
        have "I s'" using st Some Continue by simp
        moreover have "0 \<le> i + 1" using "1.prems"(2) by simp
        ultimately have "flow_all I (scan_cols e j (i + 1) s')"
          using "1.IH"[OF True Some Continue] step by blast
        then show ?thesis using True Some Continue by (subst scan_cols.simps) simp
      next
        case (Return rc s')
        then show ?thesis using True Some st by (subst scan_cols.simps) simp
      next
        case (Fault f)
        then show ?thesis using True Some st by (subst scan_cols.simps) simp
      qed
    qed
  qed
qed

lemma scan_rows_invariant:
  assumes "\<And>i j s. 0 \<le> i \<Longrightarrow> i < f_roi_w e \<Longrightarrow> 0 \<le> j \<Longrightarrow> j < f_roi_h e \<Longrightarrow> I s
                   \<Longrightarrow> flow_all I (pixel_step e i j s)"
    and "0 \<le> j" and "I s"
  shows "flow_all I (scan_rows e j s)"
  using assms
proof (induction e j s rule: scan_rows.induct)
  case (1 e j s)
  note step = "1.prems"(1)
  show ?case
  proof (cases "j < f_roi_h e")
    case False
    then show ?thesis using "1.prems"(3) by (subst scan_rows.simps) simp
  next
    case True
    have st: "flow_all I (scan_cols e j 0 s)"
    proof (rule scan_cols_invariant)
      show "flow_all I (pixel_step e i' j s')" if "0 \<le> i'" "i' < f_roi_w e" "I s'" for i' s'
        by (rule step[OF that(1,2) "1.prems"(2) True that(3)])
    qed (use "1.prems" in simp_all)
    show ?thesis
    proof (cases "scan_cols e j 0 s")
      case None
      then show ?thesis using True by (subst scan_rows.simps) simp
    next
      case (Some r)
      show ?thesis
      proof (cases r)
        case (Continue s')
        have "I s'" using st Some Continue by simp
        moreover have "0 \<le> j + 1" using "1.prems"(2) by simp
        ultimately have "flow_all I (scan_rows e (j + 1) s')"
          using "1.IH"[OF True Some Continue] step by blast
        then show ?thesis using True Some Continue by (subst scan_rows.simps) simp
      next
        case (Return rc s')
        then show ?thesis using True Some st by (subst scan_rows.simps) simp
      next
        case (Fault f)
        then show ?thesis using True Some st by (subst scan_rows.simps) simp
      qed
    qed
  qed
qed


lemma new_external_unfold:
  "new_external e i j s =
     (case alloc (s_alloc s) of
        (False, al') \<Rightarrow> Some (Return 0 (s\<lparr>s_alloc := al'\<rparr>))
      | (True, al') \<Rightarrow>
          (case load (blob_list (s_blobs s) @ [zero_blob]) (s_count s) of
             None \<Rightarrow> Some (Fault OutOfBounds)
           | Some b \<Rightarrow>
               (case contour_trace (trace_call e 1 (s_current s) i j) (s_label s)
                       (Some (external b)) al' of
                  None \<Rightarrow> None
                | Some (Inl f) \<Rightarrow> Some (Fault f)
                | Some (Inr (rc, t)) \<Rightarrow>
                    Some (Continue (s\<lparr>s_label := t_label t,
                      s_blobs := Some ((blob_list (s_blobs s) @ [zero_blob])[nat (s_count s) :=
                         b\<lparr>label := s_current s,
                           external := (case t_contour t of None \<Rightarrow> external b | Some c \<Rightarrow> c)\<rparr>]),
                      s_count := s_count s + 1,
                      s_current := s16 (s_current s + 1),
                      s_alloc := t_alloc t\<rparr>)))))"
  by (simp add: new_external_def blob_add_def blob_list_def
        split: prod.splits bool.splits option.splits sum.splits)

lemma new_internal_unfold:
  "new_internal e i j current_label s =
     (case s_blobs s of
        None \<Rightarrow> Some (Fault NullPointer)
      | Some arr \<Rightarrow>
          (case load arr (current_label - 1) of
             None \<Rightarrow> Some (Fault OutOfBounds)
           | Some b \<Rightarrow>
               if f_extract_internal e \<noteq> 0 then
                 (case alloc (s_alloc s) of
                    (False, al') \<Rightarrow> Some (Return 0 (s\<lparr>s_alloc := al'\<rparr>))
                  | (True, al') \<Rightarrow>
                      (case load (contour_list (internal b) @ [zero_contour]) (internal_count b) of
                         None \<Rightarrow> Some (Fault OutOfBounds)
                       | Some c \<Rightarrow>
                           (case contour_trace (trace_call e 0 current_label i j) (s_label s)
                                   (Some c) al' of
                              None \<Rightarrow> None
                            | Some (Inl f) \<Rightarrow> Some (Fault f)
                            | Some (Inr (rc, t)) \<Rightarrow>
                                Some (Continue (s\<lparr>s_label := t_label t,
                                  s_blobs := Some (arr[nat (current_label - 1) :=
                                    b\<lparr>internal_count := internal_count b + 1,
                                      internal := Some ((contour_list (internal b) @ [zero_contour])
                                          [nat (internal_count b) :=
                                             (case t_contour t of None \<Rightarrow> c | Some c' \<Rightarrow> c')])\<rparr>]),
                                  s_alloc := t_alloc t\<rparr>)))))
               else
                 (case contour_trace (trace_call e 0 current_label i j) (s_label s) None
                         (s_alloc s) of
                    None \<Rightarrow> None
                  | Some (Inl f) \<Rightarrow> Some (Fault f)
                  | Some (Inr (rc, t)) \<Rightarrow>
                      Some (Continue (s\<lparr>s_label := t_label t,
                        s_blobs := Some (arr[nat (current_label - 1) :=
                          b\<lparr>internal_count := internal_count b + 1\<rparr>]),
                        s_alloc := t_alloc t\<rparr>)))))"
  by (simp add: new_internal_def blob_add_internal_def contour_list_def
        split: prod.splits bool.splits option.splits sum.splits)

section \<open>The scan: case rules and invariants\<close>

lemma pixel_step_cases [consumes 1, case_names unchanged fault external internal interior]:
  assumes "pixel_step e i j s = Some r"
  obtains "r = Continue s"
  | f where "r = Fault f"
  | "load (s_label s) (i + f_roi_w e * j) = Some 0" "new_external e i j s = Some r"
  | current_label where "new_internal e i j current_label s = Some r"
  | v l' where "load (s_label s) (i + f_roi_w e * j) = Some 0"
      "store (s_label s) (i + f_roi_w e * j) v = Some l'" "r = Continue (s\<lparr>s_label := l'\<rparr>)"
proof -
  let ?pin = "f_roi_x e + f_in_w e * f_roi_y e + f_in_w e * j + i"
  let ?pl = "i + f_roi_w e * j"
  let ?A = "if j > 0 then load (f_in e) (?pin - f_in_w e) else Some 0"
  let ?B = "if j < f_roi_h e - 1 then load (f_in e) (?pin + f_in_w e) else Some 0"
  let ?C = "if j < f_roi_h e - 1 then load (s_label s) (?pl + f_roi_w e) else Some (- 1)"
  note d = pixel_step_def Let_def
  show thesis
  proof (cases "load (f_in e) ?pin")
    case None
    then show thesis using assms that(2) by (auto simp: d)
  next
    case p: (Some p)
    show thesis
    proof (cases "p = 0")
      case True
      then show thesis using assms p that(1) by (simp add: d)
    next
      case nz: False
      show thesis
      proof (cases ?A)
        case None
        then show thesis using assms p nz that(2) by (auto simp: d)
      next
        case A: (Some above_in)
        show thesis
        proof (cases ?B)
          case None
          then show thesis using assms p nz A that(2) by (auto simp: d)
        next
          case B: (Some below_in)
          show thesis
          proof (cases ?C)
            case None
            then show thesis using assms p nz A B that(2) by (auto simp: d)
          next
            case C: (Some below_label)
            show thesis
            proof (cases "load (s_label s) ?pl")
              case None
              then show thesis using assms p nz A B C that(2) by (auto simp: d)
            next
              case D: (Some cur)
              have eq: "Some r =
                 (if cur = 0 \<and> above_in = 0 then new_external e i j s
                    else if below_in = 0 \<and> below_label = 0 then
                      (case (if cur \<noteq> 0 then Some cur else load (s_label s) (?pl - 1)) of
                         None \<Rightarrow> Some (Fault OutOfBounds)
                       | Some current_label \<Rightarrow> new_internal e i j current_label s)
                    else if cur = 0 then
                      (case (if i > 0 then load (s_label s) (?pl - 1) else Some 0) of
                         None \<Rightarrow> Some (Fault OutOfBounds)
                       | Some v \<Rightarrow>
                           (case store (s_label s) ?pl v of
                              None \<Rightarrow> Some (Fault OutOfBounds)
                            | Some l' \<Rightarrow> Some (Continue (s\<lparr>s_label := l'\<rparr>))))
                    else Some (Continue s))"
                using assms p nz A B C D by (simp add: d)
              show thesis
              proof (cases "cur = 0 \<and> above_in = 0")
                case True
                then show thesis using eq D that(3) by simp
              next
                case c1: False
                show thesis
                proof (cases "below_in = 0 \<and> below_label = 0")
                  case True
                  then show thesis using eq c1 that(2,4)
                    by (cases "if cur \<noteq> 0 then Some cur else load (s_label s) (?pl - 1)") auto
                next
                  case c2: False
                  show thesis
                  proof (cases "cur = 0")
                    case False
                    then show thesis using eq c1 c2 that(1) by simp
                  next
                    case True
                    then show thesis using eq c1 c2 D that(2,5)
                      by (cases "if i > 0 then load (s_label s) (?pl - 1) else Some 0";
                          cases "store (s_label s) ?pl (the (if i > 0 then load (s_label s) (?pl - 1) else Some 0))")
                         auto
                  qed
                qed
              qed
            qed
          qed
        qed
      qed
    qed
  qed
qed

lemma find_blobs_cases [consumes 1, case_names noop scanned]:
  assumes "find_blobs roi_x roi_y roi_w roi_h inp in_w in_h (Some out) ex al = Some (Inr (rc, res))"
  obtains "adjust_roi (s16 roi_x) (s16 roi_y) (s16 roi_w) (s16 roi_h) (s16 in_w) (s16 in_h) = None"
      "rc = 1" "res = Some (out\<lparr>o_blobs := None, o_count := 0\<rparr>)"
  | rx ry rw rh al' r s where
      "adjust_roi (s16 roi_x) (s16 roi_y) (s16 roi_w) (s16 roi_h) (s16 in_w) (s16 in_h)
         = Some (rx, ry, rw, rh)"
      "alloc al = (True, al')"
      "scan_rows \<lparr>f_roi_x = rx, f_roi_y = ry, f_roi_w = rw, f_roi_h = rh, f_in = inp,
                  f_in_w = s16 in_w, f_extract_internal = ex\<rparr> 0 (scan_init rw rh al') = Some r"
      "r = Continue s \<and> rc = 1 \<or> r = Return rc s"
      "res = Some (scan_result (out\<lparr>o_blobs := None, o_count := 0, o_label_w := rw, o_label_h := rh\<rparr>) s)"
proof (cases "adjust_roi (s16 roi_x) (s16 roi_y) (s16 roi_w) (s16 roi_h) (s16 in_w) (s16 in_h)")
  case None
  then show ?thesis using assms that(1) by (simp add: find_blobs_def)
next
  case (Some q)
  obtain rx ry rw rh where q: "q = (rx, ry, rw, rh)" by (cases q) auto
  obtain ok al' where al: "alloc al = (ok, al')" by (cases "alloc al") auto
  show ?thesis
  proof (cases ok)
    case False
    then show ?thesis using assms Some q al by (simp add: find_blobs_def)
  next
    case True
    let ?e = "\<lparr>f_roi_x = rx, f_roi_y = ry, f_roi_w = rw, f_roi_h = rh, f_in = inp,
                  f_in_w = s16 in_w, f_extract_internal = ex\<rparr>"
    show ?thesis
    proof (cases "scan_rows ?e 0 (scan_init rw rh al')")
      case None
      then show ?thesis using assms Some q al True by (simp add: find_blobs_def)
    next
      case r: (Some r)
      have al1: "alloc al = (True, al')" using al True by simp
      show ?thesis
        using assms Some q al1 r that(2)[OF Some[unfolded q] al1 r]
        by (cases r) (auto simp: find_blobs_def)
    qed
  qed
qed


lemma load_Some: "load m k = Some v \<longleftrightarrow> 0 \<le> k \<and> k < int (length m) \<and> v = m ! nat k"
  by (auto simp: load_def)



lemma new_internal_cases [consumes 1, case_names fault failed updated]:
  assumes "new_internal e i j cl s = Some r"
  obtains f where "r = Fault f"
  | al' where "f_extract_internal e \<noteq> 0" "alloc (s_alloc s) = (False, al')"
      "r = Return 0 (s\<lparr>s_alloc := al'\<rparr>)"
  | arr b b' c0 al0 rc t where "s_blobs s = Some arr" "load arr (cl - 1) = Some b"
      "contour_trace (trace_call e 0 cl i j) (s_label s) c0 al0 = Some (Inr (rc, t))"
      "r = Continue (s\<lparr>s_label := t_label t, s_blobs := Some (arr[nat (cl - 1) := b']),
                       s_alloc := t_alloc t\<rparr>)"
      "f_extract_internal e = 0 \<and> c0 = None \<and> al0 = s_alloc s
         \<and> b' = b\<lparr>internal_count := internal_count b + 1\<rparr>
       \<or> f_extract_internal e \<noteq> 0 \<and> alloc (s_alloc s) = (True, al0)
         \<and> (\<exists>c. c0 = Some c
               \<and> load (contour_list (internal b) @ [zero_contour]) (internal_count b) = Some c
               \<and> b' = b\<lparr>internal_count := internal_count b + 1,
                        internal := Some ((contour_list (internal b) @ [zero_contour])
                           [nat (internal_count b) :=
                              (case t_contour t of None \<Rightarrow> c | Some c' \<Rightarrow> c')])\<rparr>)"
proof (cases "s_blobs s")
  case None
  then show ?thesis using assms that(1) by (auto simp: new_internal_unfold)
next
  case arr: (Some arr)
  show ?thesis
  proof (cases "load arr (cl - 1)")
    case None
    then show ?thesis using assms arr that(1) by (auto simp: new_internal_unfold)
  next
    case b: (Some b)
    show ?thesis
    proof (cases "f_extract_internal e = 0")
      case True
      show ?thesis
      proof (cases "contour_trace (trace_call e 0 cl i j) (s_label s) None (s_alloc s)")
        case None
        then show ?thesis using assms arr b True by (simp add: new_internal_unfold)
      next
        case (Some q)
        show ?thesis
        proof (cases q)
          case (Inl f)
          then show ?thesis using assms arr b True Some that(1) by (auto simp: new_internal_unfold)
        next
          case (Inr p)
          obtain rc t where p: "p = (rc, t)" by (cases p) auto
          show ?thesis
            using assms arr b True Some Inr p
            by (intro that(3)[OF arr b, of _ _ rc t]) (auto simp: new_internal_unfold)
        qed
      qed
    next
      case False
      obtain ok al' where al: "alloc (s_alloc s) = (ok, al')" by (cases "alloc (s_alloc s)") auto
      show ?thesis
      proof (cases ok)
        case f: False
        then show ?thesis using assms arr b False al that(2) by (auto simp: new_internal_unfold)
      next
        case ok: True
        show ?thesis
        proof (cases "load (contour_list (internal b) @ [zero_contour]) (internal_count b)")
          case None
          then show ?thesis using assms arr b False al ok that(1) by (auto simp: new_internal_unfold)
        next
          case c: (Some c)
          show ?thesis
          proof (cases "contour_trace (trace_call e 0 cl i j) (s_label s) (Some c) al'")
            case None
            then show ?thesis using assms arr b False al ok c by (simp add: new_internal_unfold)
          next
            case (Some q)
            show ?thesis
            proof (cases q)
              case (Inl f)
              then show ?thesis using assms arr b False al ok c Some that(1)
                by (auto simp: new_internal_unfold)
            next
              case (Inr p)
              obtain rc t where p: "p = (rc, t)" by (cases p) auto
              show ?thesis
                using assms arr b False al ok c Some Inr p
                by (intro that(3)[OF arr b, of _ _ rc t]) (auto simp: new_internal_unfold)
            qed
          qed
        qed
      qed
    qed
  qed
qed

lemma nth_update_same_field:
  assumes "load arr k = Some b" and "f b' = f b"
  shows "map f (arr[nat k := b']) = map f arr"
  using assms by (auto simp: load_Some list_eq_iff_nth_eq nth_list_update)



lemma s16_small: "- 32768 \<le> v \<Longrightarrow> v \<le> 32767 \<Longrightarrow> s16 v = v"
  by (simp add: s16_def)



lemma new_external_cases [consumes 1, case_names fault failed traced]:
  assumes "new_external e i j s = Some r"
  obtains f where "r = Fault f"
  | al' where "alloc (s_alloc s) = (False, al')" "r = Return 0 (s\<lparr>s_alloc := al'\<rparr>)"
  | al' b rc t where "alloc (s_alloc s) = (True, al')"
      "load (blob_list (s_blobs s) @ [zero_blob]) (s_count s) = Some b"
      "contour_trace (trace_call e 1 (s_current s) i j) (s_label s) (Some (external b)) al'
         = Some (Inr (rc, t))"
      "r = Continue (s\<lparr>s_label := t_label t,
              s_blobs := Some ((blob_list (s_blobs s) @ [zero_blob])[nat (s_count s) :=
                 b\<lparr>label := s_current s,
                   external := (case t_contour t of None \<Rightarrow> external b | Some c \<Rightarrow> c)\<rparr>]),
              s_count := s_count s + 1,
              s_current := s16 (s_current s + 1),
              s_alloc := t_alloc t\<rparr>)"
proof -
  obtain ok al' where al: "alloc (s_alloc s) = (ok, al')" by (cases "alloc (s_alloc s)") auto
  show ?thesis
  proof (cases ok)
    case False
    then show ?thesis using assms al that(2) by (auto simp: new_external_unfold)
  next
    case ok: True
    show ?thesis
    proof (cases "load (blob_list (s_blobs s) @ [zero_blob]) (s_count s)")
      case None
      then show ?thesis using assms al ok that(1) by (auto simp: new_external_unfold)
    next
      case b: (Some b)
      show ?thesis
      proof (cases "contour_trace (trace_call e 1 (s_current s) i j) (s_label s)
                        (Some (external b)) al'")
        case None
        then show ?thesis using assms al ok b by (simp add: new_external_unfold)
      next
        case (Some q)
        show ?thesis
        proof (cases q)
          case (Inl f)
          then show ?thesis using assms al ok b Some that(1) by (auto simp: new_external_unfold)
        next
          case (Inr p)
          obtain rc t where p: "p = (rc, t)" by (cases p) auto
          have al1: "alloc (s_alloc s) = (True, al')" using al ok by simp
          show ?thesis
            using assms al1 b Some Inr p
            by (intro that(3)[OF al1 b, of rc t]) (auto simp: new_external_unfold)
        qed
      qed
    qed
  qed
qed

lemma list_all_update: "list_all P xs \<Longrightarrow> P v \<Longrightarrow> list_all P (xs[k := v])"
  by (auto simp: list_all_iff dest: set_update_subset_insert[THEN subsetD])

lemma list_all_load: "list_all P xs \<Longrightarrow> load xs k = Some v \<Longrightarrow> P v"
  by (auto simp: load_Some list_all_iff)

lemma hole_ok_zero: "hole_ok ex zero_blob"
  by (simp add: hole_ok_def zero_blob_def)

lemma pixel_step_holes:
  assumes "holes_ok (f_extract_internal e) s"
  shows "flow_all (holes_ok (f_extract_internal e)) (pixel_step e i j s)"
proof (cases "pixel_step e i j s")
  case None
  then show ?thesis by simp
next
  case (Some r)
  let ?ex = "f_extract_internal e"
  have all: "list_all (hole_ok ?ex) (blob_list (s_blobs s))" using assms by (simp add: holes_ok_def)
  from Some show ?thesis
  proof (cases rule: pixel_step_cases)
    case unchanged
    then show ?thesis using Some assms by simp
  next
    case (fault f)
    then show ?thesis using Some by simp
  next
    case external
    from external(2) show ?thesis
    proof (cases rule: new_external_cases)
      case (fault f)
      then show ?thesis using Some by simp
    next
      case (failed al')
      then show ?thesis using Some assms by (simp add: holes_ok_def)
    next
      case (traced al' b rc t)
      have all': "list_all (hole_ok ?ex) (blob_list (s_blobs s) @ [zero_blob])"
        using all by (simp add: hole_ok_zero)
      have "hole_ok ?ex b" by (rule list_all_load[OF all' traced(2)])
      then have "hole_ok ?ex (b\<lparr>label := s_current s,
                   external := (case t_contour t of None \<Rightarrow> external b | Some c \<Rightarrow> c)\<rparr>)"
        by (simp add: hole_ok_def)
      then show ?thesis
        using Some traced(4) list_all_update[OF all']
        by (simp add: holes_ok_def blob_list_def)
    qed
  next
    case (internal current_label)
    from internal show ?thesis
    proof (cases rule: new_internal_cases)
      case (fault f)
      then show ?thesis using Some by simp
    next
      case (failed al')
      then show ?thesis using Some assms by (simp add: holes_ok_def)
    next
      case (updated arr b b' c0 al0 rc t)
      have all': "list_all (hole_ok ?ex) arr" using all updated(1) by (simp add: blob_list_def)
      have "hole_ok ?ex b" by (rule list_all_load[OF all' updated(2)])
      then have "hole_ok ?ex b'" using updated(5) by (auto simp: hole_ok_def)
      then show ?thesis
        using Some updated(4) list_all_update[OF all']
        by (simp add: holes_ok_def blob_list_def)
    qed
  next
    case (interior v l')
    then show ?thesis using Some assms by (simp add: holes_ok_def)
  qed
qed

lemma find_blobs_holes:
  assumes "find_blobs roi_x roi_y roi_w roi_h inp in_w in_h (Some out) ex al
             = Some (Inr (rc, Some out'))"
  shows "list_all (hole_ok ex) (blob_list (o_blobs out'))"
  using assms
proof (cases rule: find_blobs_cases)
  case noop
  then show ?thesis by (simp add: blob_list_def)
next
  case (scanned rx ry rw rh al' r s)
  let ?e = "\<lparr>f_roi_x = rx, f_roi_y = ry, f_roi_w = rw, f_roi_h = rh, f_in = inp,
                  f_in_w = s16 in_w, f_extract_internal = ex\<rparr>"
  have "flow_all (holes_ok (f_extract_internal ?e)) (scan_rows ?e 0 (scan_init rw rh al'))"
    by (rule scan_rows_invariant)
       (simp_all add: pixel_step_holes holes_ok_def scan_init_def blob_list_def del: scan_args.simps)
  then have "holes_ok ex s" using scanned(3,4) by auto
  then show ?thesis using scanned(5) by (simp add: holes_ok_def scan_result_def)
qed

lemma alloc_granting_True: "granting al \<Longrightarrow> alloc al = (ok, al') \<Longrightarrow> ok \<and> granting al'"
  using alloc_granting[of al] by auto

lemma abs_point_trace_call: "abs_point (trace_call e ext cur i j) = abs_point (trace_call e 0 0 0 0)"
  by (simp add: abs_point_def trace_call_def in_roi_def fun_eq_iff)

lemma in_roi_trace_call:
  "in_roi (trace_call e ext cur i j) x y
     = (0 \<le> x \<and> x < f_roi_w e \<and> 0 \<le> y \<and> y < f_roi_h e)"
  by (simp add: trace_call_def in_roi_def)

lemma trace_call_start [simp]:
  "a_x (trace_call e ext cur i j) = i" "a_y (trace_call e ext cur i j) = j"
  by (simp_all add: trace_call_def)

lemma pixel_step_exts:
  assumes inv: "exts_ok e s" and i: "0 \<le> i" "i < f_roi_w e" and j: "0 \<le> j" "j < f_roi_h e"
  shows "flow_all (exts_ok e) (pixel_step e i j s)"
proof (cases "pixel_step e i j s")
  case None
  then show ?thesis by simp
next
  case (Some r)
  let ?a0 = "trace_call e 0 0 0 0"
  let ?bl = "blob_list (s_blobs s)"
  have g: "granting (s_alloc s)" and cnt: "s_count s = int (length ?bl)"
    and all: "list_all (ext_ok ?a0) ?bl"
    using inv by (simp_all add: exts_ok_def)
  have start: "in_roi (trace_call e ext cur i j) (a_x (trace_call e ext cur i j))
                 (a_y (trace_call e ext cur i j))" for ext cur
    using i j by (simp add: in_roi_trace_call)
  from Some show ?thesis
  proof (cases rule: pixel_step_cases)
    case unchanged
    then show ?thesis using Some inv by simp
  next
    case (fault f)
    then show ?thesis using Some by simp
  next
    case external
    from external(2) show ?thesis
    proof (cases rule: new_external_cases)
      case (fault f)
      then show ?thesis using Some by simp
    next
      case (failed al')
      then show ?thesis using alloc_granting_True[OF g failed(1)] by simp
    next
      case (traced al' b rc t)
      have g': "granting al'" using alloc_granting_True[OF g traced(1)] by simp
      have b: "b = zero_blob" using traced(2) cnt by (simp add: load_Some)
      note res = contour_trace_result[OF traced(3) g' start]
      then obtain c' where c': "t_contour t = Some c'"
          "extends (trace_call e 1 (s_current s) i j) True (external b) c'"
        by (cases "t_contour t") auto
      let ?b' = "b\<lparr>label := s_current s, external := c'\<rparr>"
      have "ext_ok ?a0 ?b'"
        using c'(2) b abs_point_trace_call[of e 1 "s_current s" i j]
        by (auto simp: ext_ok_def extends_def zero_blob_def zero_contour_def)
      then have "list_all (ext_ok ?a0) (?bl @ [?b'])" using all by simp
      moreover have "(?bl @ [zero_blob])[nat (s_count s) := ?b'] = ?bl @ [?b']"
        using cnt by simp
      ultimately show ?thesis
        using Some traced(4) c'(1) b res cnt
        by (simp add: exts_ok_def blob_list_def)
    qed
  next
    case (internal current_label)
    from internal show ?thesis
    proof (cases rule: new_internal_cases)
      case (fault f)
      then show ?thesis using Some by simp
    next
      case (failed al')
      then show ?thesis using alloc_granting_True[OF g failed(2)] by simp
    next
      case (updated arr b b' c0 al0 rc t)
      have g0: "granting al0" using updated(5) g alloc_granting_True[OF g] by auto
      note res = contour_trace_result[OF updated(3) g0 start]
      have all': "list_all (ext_ok ?a0) arr" using all updated(1) by (simp add: blob_list_def)
      have "ext_ok ?a0 b" by (rule list_all_load[OF all' updated(2)])
      then have "ext_ok ?a0 b'" using updated(5) by (auto simp: ext_ok_def)
      then show ?thesis
        using Some updated(1,4) list_all_update[OF all'] res cnt
        by (simp add: exts_ok_def blob_list_def)
    qed
  next
    case (interior v l')
    then show ?thesis using Some inv by (simp add: exts_ok_def)
  qed
qed

lemma find_blobs_exts:
  assumes "find_blobs roi_x roi_y roi_w roi_h inp in_w in_h (Some out) ex al
             = Some (Inr (rc, Some out'))"
    and "granting al"
    and "adjust_roi (s16 roi_x) (s16 roi_y) (s16 roi_w) (s16 roi_h) (s16 in_w) (s16 in_h)
           = Some (rx, ry, rw, rh)"
  shows "list_all (ext_ok \<lparr>a_external = 0, a_current = 0, a_x = 0, a_y = 0,
            a_roi_x = rx, a_roi_y = ry, a_roi_w = rw, a_roi_h = rh,
            a_in = inp, a_base = rx + s16 in_w * ry, a_line_stride = s16 in_w\<rparr>)
           (blob_list (o_blobs out'))"
  using assms(1)
proof (cases rule: find_blobs_cases)
  case noop
  then show ?thesis by (simp add: blob_list_def)
next
  case (scanned rx' ry' rw' rh' al' r s)
  then have eq: "rx' = rx" "ry' = ry" "rw' = rw" "rh' = rh" using assms(3) by simp_all
  let ?e = "\<lparr>f_roi_x = rx, f_roi_y = ry, f_roi_w = rw, f_roi_h = rh, f_in = inp,
                  f_in_w = s16 in_w, f_extract_internal = ex\<rparr>"
  have g': "granting al'" using alloc_granting_True[OF assms(2) scanned(2)] by simp
  have "flow_all (exts_ok ?e) (scan_rows ?e 0 (scan_init rw rh al'))"
  proof (rule scan_rows_invariant)
    show "exts_ok ?e (scan_init rw rh al')"
      using g' by (simp add: exts_ok_def scan_init_def blob_list_def)
  qed (simp_all add: pixel_step_exts)
  then have "exts_ok ?e s" using scanned(3,4) eq by auto
  then show ?thesis using scanned(5) by (simp add: exts_ok_def scan_result_def trace_call_def)
qed

section \<open>The order of the search\<close>

lemma scan_post_skip:
  assumes post: "scan_post a s1 s'" and i: "0 \<le> t_i s" "t_i s < 8"
    and s1: "t_j s1 = t_j s + 1" "t_i s1 = (t_i s + 1) AND 7" "t_x0 s1 = t_x0 s" "t_y0 s1 = t_y0 s"
      "t_xx s1 = t_xx s" "t_yy s1 = t_yy s" "t_done s1 = t_done s"
    and nf: "\<not> fg_at a (nb_x s) (nb_y s)" and lt: "t_j s < 8"
  shows "scan_post a s s'"
proof -
  have nb: "nb_of s1 d = nb_of s d" for d by (simp add: nb_of_def s1)
  have i1: "t_i s1 = (t_i s + 1) mod 8" by (simp add: s1 and7)
  have shift: "(t_i s1 + k) mod 8 = (t_i s + (k + 1)) mod 8" for k
  proof -
    have "(t_i s1 + k) mod 8 = ((t_i s + 1) mod 8 + k) mod 8" by (simp add: i1)
    also have "\<dots> = (t_i s + 1 + k) mod 8" by (rule mod_add_left_eq)
    finally show ?thesis by (simp add: algebra_simps)
  qed
  have "t_i s' = (t_i s + (t_j s' - t_j s)) mod 8"
  proof -
    have "t_i s' = (t_i s1 + (t_j s' - t_j s1)) mod 8" using post by (simp add: scan_post_def)
    also have "\<dots> = (t_i s + ((t_j s' - t_j s1) + 1)) mod 8" by (rule shift)
    finally show ?thesis by (simp add: s1)
  qed
  moreover have "\<not> fg_at a (fst (nb_of s ((t_i s + k) mod 8))) (snd (nb_of s ((t_i s + k) mod 8)))"
    if "0 \<le> k" "k < t_j s' - t_j s" for k
  proof (cases "k = 0")
    case True
    then show ?thesis using nf i by (simp add: nb_of_def nb_x_def nb_y_def)
  next
    case False
    then have "0 \<le> k - 1" "k - 1 < t_j s' - t_j s1" using that s1 by simp_all
    then have "\<not> fg_at a (fst (nb_of s1 ((t_i s1 + (k - 1)) mod 8)))
                     (snd (nb_of s1 ((t_i s1 + (k - 1)) mod 8)))"
      using post by (simp add: scan_post_def)
    then show ?thesis by (simp add: nb shift)
  qed
  ultimately show ?thesis
    using post s1 lt by (simp add: scan_post_def nb)
qed

lemma neighbour_scan_order:
  "0 \<le> t_i s \<and> t_i s < 8 \<longrightarrow>
     (case neighbour_scan a s of Inl f \<Rightarrow> True | Inr s' \<Rightarrow> scan_post a s s')"
proof (rule neighbour_scan_cases[where a = a and s = s and
        P = "\<lambda>s r. 0 \<le> t_i s \<and> t_i s < 8 \<longrightarrow>
               (case r of Inl f \<Rightarrow> True | Inr s' \<Rightarrow> scan_post a s s')"], goal_cases)
  case (1 s)
  then show ?case by (auto simp: scan_post_def)
next
  case (2 s)
  show ?case
  proof (intro impI)
    assume i: "0 \<le> t_i s \<and> t_i s < 8"
    have i1: "0 \<le> t_i (skip s) \<and> t_i (skip s) < 8" by (simp add: skip_def and7)
    show "case neighbour_scan a (skip s) of Inl f \<Rightarrow> True | Inr s' \<Rightarrow> scan_post a s s'"
    proof (cases "neighbour_scan a (skip s)")
      case (Inl f)
      then show ?thesis by simp
    next
      case (Inr s')
      then have "scan_post a (skip s) s'" using 2(3) i1 by simp
      then have "scan_post a s s'"
        by (rule scan_post_skip) (use i 2(1,2) in \<open>simp_all add: skip_def fg_at_def\<close>)
      then show ?thesis using Inr by simp
    qed
  qed
next
  case (3 s)
  then show ?case by simp
next
  case (4 s p l')
  then show ?case
    by (auto simp: scan_post_def accept_def fg_at_def nb_of_def nb_x_def nb_y_def)
next
  case (5 s p)
  then show ?case by simp
next
  case (6 s l')
  show ?case
  proof (intro impI)
    assume i: "0 \<le> t_i s \<and> t_i s < 8"
    let ?s1 = "(skip s)\<lparr>t_label := l'\<rparr>"
    have i1: "0 \<le> t_i ?s1 \<and> t_i ?s1 < 8" by (simp add: skip_def and7)
    show "case neighbour_scan a ?s1 of Inl f \<Rightarrow> True | Inr s' \<Rightarrow> scan_post a s s'"
    proof (cases "neighbour_scan a ?s1")
      case (Inl f)
      then show ?thesis by simp
    next
      case (Inr s')
      then have "scan_post a ?s1 s'" using 6(5) i1 by simp
      then have "scan_post a s s'"
        by (rule scan_post_skip) (use i 6(1,3) in \<open>simp_all add: skip_def fg_at_def\<close>)
      then show ?thesis using Inr by simp
    qed
  qed
next
  case (7 s)
  then show ?case by simp
qed



lemma directions_clockwise:
  "map (\<lambda>d. (dx d, dy d)) [0, 1, 2, 3, 4, 5, 6, 7]
     = [(1, 0), (1, 1), (0, 1), (- 1, 1), (- 1, 0), (- 1, - 1), (0, - 1), (1, - 1)]"
  by (simp add: dx_def dy_def)



section \<open>Internal contours\<close>

lemma ring_count_only:
  "map (\<lambda>b. (internal b, internal_count b))
     (blob_list (blobs_of (find_blobs 0 0 3 3 [1,1,1, 1,0,1, 1,1,1] 3 3 (Some fresh_outputs) 0 [])))
   = [(None, 1)]"
  by code_simp

text \<open>
  C10. In every blob that \<^verbatim>\<open>find_blobs\<close> returns, the internal contour array is null
  when \<^verbatim>\<open>extract_internal\<close> is 0, and it is non-null only if \<^verbatim>\<open>extract_internal\<close> is
  nonzero and \<open>internal_count\<close> is at least 1. With the flag at 0 the count still
  advances: the 3-by-3 ring yields one blob with \<open>internal_count = 1\<close> and a null array.
\<close>

theorem find_blobs_internal_pointer:
  assumes "find_blobs roi_x roi_y roi_w roi_h inp in_w in_h (Some out) ex al
             = Some (Inr (rc, Some out'))"
    and "b \<in> set (blob_list (o_blobs out'))"
  shows "(ex = 0 \<longrightarrow> internal b = None)
     \<and> (internal b \<noteq> None \<longrightarrow> ex \<noteq> 0 \<and> 1 \<le> internal_count b)
     \<and> map (\<lambda>b. (internal b, internal_count b))
          (blob_list (blobs_of (find_blobs 0 0 3 3 [1,1,1, 1,0,1, 1,1,1] 3 3
             (Some fresh_outputs) 0 [])))
        = [(None, 1)]"
proof -
  have "hole_ok ex b"
    using find_blobs_holes[OF assms(1)] assms(2) by (simp add: list_all_iff)
  then show ?thesis using ring_count_only by (simp add: hole_ok_def)
qed

theorem find_blobs_internal_pointer_witness:
  "find_blobs 0 0 3 3 [1,1,1, 1,0,1, 1,1,1] 3 3 (Some fresh_outputs) 1 []
     = Some (Inr (1, Some \<lparr>o_label = Some [1, 1, 1, 1, 0, 1, 1, 1, 1], o_label_w = 3, o_label_h = 3,
         o_blobs = Some [\<lparr>label = 1,
            external = \<lparr>count = 9, capacity = 32,
               points = [(0, 0), (1, 0), (2, 0), (2, 1), (2, 2), (1, 2), (0, 2), (0, 1), (0, 0)]\<rparr>,
            internal = Some [\<lparr>count = 5, capacity = 32,
               points = [(1, 0), (0, 1), (1, 2), (2, 1), (1, 0)]\<rparr>],
            internal_count = 1\<rparr>],
         o_count = 1\<rparr>))
   \<and> (1 :: int) \<noteq> 0"
proof -
  let ?b = "\<lparr>label = 1,
            external = \<lparr>count = 9, capacity = 32,
               points = [(0, 0), (1, 0), (2, 0), (2, 1), (2, 2), (1, 2), (0, 2), (0, 1), (0, 0)]\<rparr>,
            internal = Some [\<lparr>count = 5, capacity = 32,
               points = [(1, 0), (0, 1), (1, 2), (2, 1), (1, 0)]\<rparr>],
            internal_count = 1\<rparr>"
  let ?out = "\<lparr>o_label = Some [1, 1, 1, 1, 0, 1, 1, 1, 1], o_label_w = 3, o_label_h = 3,
         o_blobs = Some [?b], o_count = 1\<rparr>"
  have h: "find_blobs 0 0 3 3 [1,1,1, 1,0,1, 1,1,1] 3 3 (Some fresh_outputs) 1 []
             = Some (Inr (1, Some ?out))"
    by code_simp
  have m: "?b \<in> set (blob_list (o_blobs ?out))" by (simp add: blob_list_def)
  from find_blobs_internal_pointer[OF h m] have "(1 :: int) \<noteq> 0" by simp
  then show ?thesis using h by simp
qed

section \<open>The tracer on an isolated pixel\<close>

lemma direction_cases:
  assumes "0 \<le> d" "d < 8"
  shows "(d :: int) \<in> {0, 1, 2, 3, 4, 5, 6, 7}"
  using assms by auto

lemma dx_dy_range:
  assumes "0 \<le> d" "d < 8"
  shows "- 1 \<le> dx d \<and> dx d \<le> 1 \<and> - 1 \<le> dy d \<and> dy d \<le> 1"
  using direction_cases[OF assms] by (auto simp: dx_def dy_def)

lemma isolated_dir:
  assumes "isolated a" "0 \<le> d" "d < 8"
  shows "\<not> in_roi a (a_x a + dx d) (a_y a + dy d)
         \<or> mask_at a (a_x a + dx d) (a_y a + dy d) = Some 0"
  using direction_cases[OF assms(2,3)] assms(1) by (auto simp: isolated_def)

lemma offset_inj:
  assumes "0 \<le> x" "x < w" "0 \<le> x'" "x' < w" "x + w * y = x' + w * (y' :: int)"
  shows "x = x' \<and> y = y'"
proof -
  have "(x + w * y) mod w = x" using assms(1,2) by simp
  moreover have "(x' + w * y') mod w = x'" using assms(3,4) by simp
  ultimately have "x = x'" using assms(5) by metis
  moreover have "w \<noteq> 0" using assms by auto
  ultimately show ?thesis using assms(5) by simp
qed

lemma offset_range:
  assumes "0 \<le> x" "x < w" "0 \<le> y" "y < (h :: int)"
  shows "0 \<le> x + w * y \<and> x + w * y < w * h"
proof -
  have "w * y \<le> w * (h - 1)" using assms by (intro mult_left_mono) simp_all
  then have "x + w * y < w * h" using assms by (simp add: algebra_simps)
  moreover have "0 \<le> w * y" using assms by simp
  ultimately show ?thesis using assms by simp
qed

lemma store_in_roi:
  assumes "in_roi a x y" "length l = nat (a_roi_w a * a_roi_h a)"
  shows "store l (x + a_roi_w a * y) v = Some (l[nat (x + a_roi_w a * y) := v])"
  using offset_range[of x "a_roi_w a" y "a_roi_h a"] assms
  by (simp add: store_def in_roi_def)

lemma mask_frame_refl: "mask_frame a l l"
  by (simp add: mask_frame_def)

lemma mask_frame_mark:
  assumes "mask_frame a (l[nat (x + a_roi_w a * y) := v]) l'" "in_roi a x y" "mask_at a x y = Some 0"
  shows "mask_frame a l l'"
proof -
  have "l' ! nat (x' + a_roi_w a * y') = l ! nat (x' + a_roi_w a * y')"
    if "in_roi a x' y'" "mask_at a x' y' \<noteq> Some 0" for x' y'
  proof -
    have "(x', y') \<noteq> (x, y)" using that(2) assms(3) by auto
    then have "x' + a_roi_w a * y' \<noteq> x + a_roi_w a * y"
      using offset_inj[of x' "a_roi_w a" x y' y] that(1) assms(2) by (auto simp: in_roi_def)
    moreover have "0 \<le> x' + a_roi_w a * y'" "0 \<le> x + a_roi_w a * y"
      using offset_range[of x' "a_roi_w a" y' "a_roi_h a"] offset_range[of x "a_roi_w a" y "a_roi_h a"]
        that(1) assms(2) by (simp_all add: in_roi_def)
    ultimately have "nat (x' + a_roi_w a * y') \<noteq> nat (x + a_roi_w a * y)" by simp
    then show ?thesis using assms(1) that by (simp add: mask_frame_def)
  qed
  then show ?thesis using assms(1) by (simp add: mask_frame_def)
qed

lemma neighbour_scan_isolated:
  assumes "isolated a" "roi_dims_ok a" "in_roi a (a_x a) (a_y a)"
  shows "at_isolated_start a s \<longrightarrow>
     (\<exists>s'. neighbour_scan a s = Inr s' \<and> mask_frame a (t_label s) (t_label s'))"
proof (rule neighbour_scan_cases[where a = a and s = s and
        P = "\<lambda>s r. at_isolated_start a s \<longrightarrow> (\<exists>s'. r = Inr s' \<and> mask_frame a (t_label s) (t_label s'))"],
       goal_cases)
  case (1 s)
  then show ?case by (simp add: mask_frame_refl)
next
  case (2 s)
  then show ?case by (auto simp: at_isolated_start_def skip_def and7)
next
  case (3 s)
  show ?case
  proof
    assume st: "at_isolated_start a s"
    have nb: "nb_x s = a_x a + dx (t_i s)" "nb_y s = a_y a + dy (t_i s)"
      using st dx_dy_range[of "t_i s"] assms(2,3)
      by (auto simp: at_isolated_start_def nb_x_def nb_y_def roi_dims_ok_def in_roi_def intro!: s16_small)
    show "\<exists>s'. Inl OutOfBounds = Inr s' \<and> mask_frame a (t_label s) (t_label s')"
      using isolated_dir[OF assms(1), of "t_i s"] st 3 nb by (simp add: at_isolated_start_def)
  qed
next
  case (4 s p l')
  show ?case
  proof
    assume st: "at_isolated_start a s"
    have nb: "nb_x s = a_x a + dx (t_i s)" "nb_y s = a_y a + dy (t_i s)"
      using st dx_dy_range[of "t_i s"] assms(2,3)
      by (auto simp: at_isolated_start_def nb_x_def nb_y_def roi_dims_ok_def in_roi_def intro!: s16_small)
    show "\<exists>s'. Inr (accept a s l') = Inr s' \<and> mask_frame a (t_label s) (t_label s')"
      using isolated_dir[OF assms(1), of "t_i s"] st 4 nb by (simp add: at_isolated_start_def)
  qed
next
  case (5 s p)
  show ?case
  proof
    assume st: "at_isolated_start a s"
    have nb: "nb_x s = a_x a + dx (t_i s)" "nb_y s = a_y a + dy (t_i s)"
      using st dx_dy_range[of "t_i s"] assms(2,3)
      by (auto simp: at_isolated_start_def nb_x_def nb_y_def roi_dims_ok_def in_roi_def intro!: s16_small)
    show "\<exists>s'. Inl OutOfBounds = Inr s' \<and> mask_frame a (t_label s) (t_label s')"
      using isolated_dir[OF assms(1), of "t_i s"] st 5 nb by (simp add: at_isolated_start_def)
  qed
next
  case (6 s l')
  show ?case
  proof
    assume st: "at_isolated_start a s"
    have l': "l' = (t_label s)[nat (nb_x s + a_roi_w a * nb_y s) := - 1]"
      using store_in_roi[OF 6(2), of "t_label s" "- 1"] 6(4) st by (simp add: at_isolated_start_def)
    have "at_isolated_start a ((skip s)\<lparr>t_label := l'\<rparr>)"
      using st l' by (simp add: at_isolated_start_def skip_def and7)
    then obtain s' where s': "neighbour_scan a ((skip s)\<lparr>t_label := l'\<rparr>) = Inr s'"
        "mask_frame a l' (t_label s')"
      using 6(5) by auto
    have "mask_frame a (t_label s) (t_label s')"
      using s'(2) 6(2,3) unfolding l' by (rule mask_frame_mark)
    then show "\<exists>s'a. neighbour_scan a ((skip s)\<lparr>t_label := l'\<rparr>) = Inr s'a
                 \<and> mask_frame a (t_label s) (t_label s'a)"
      using s'(1) by simp
  qed
next
  case (7 s)
  show ?case
  proof
    assume st: "at_isolated_start a s"
    show "\<exists>s'. Inl OutOfBounds = Inr s' \<and> mask_frame a (t_label s) (t_label s')"
      using store_in_roi[OF 7(2), of "t_label s" "- 1"] 7(4) st by (simp add: at_isolated_start_def)
  qed
qed

lemma start_neighbour:
  assumes "roi_dims_ok a" "in_roi a x y" "0 \<le> d" "d < 8"
  shows "s16 (x + dx d) = x + dx d \<and> s16 (y + dy d) = y + dy d"
  using dx_dy_range[OF assms(3,4)] assms(1,2)
  by (auto simp: roi_dims_ok_def in_roi_def intro!: s16_small)

lemma contour_trace_isolated:
  assumes iso: "isolated a" and dims: "roi_dims_ok a" and start: "in_roi a (a_x a) (a_y a)"
    and g: "granting al" and len: "length lbl = nat (a_roi_w a * a_roi_h a)"
  shows "\<exists>t. contour_trace a lbl c al = Some (Inr (1, t))
           \<and> t_contour t = map_option (\<lambda>c. pushed c (a_roi_x a + a_x a) (a_roi_y a + a_y a)) c
           \<and> granting (t_alloc t)
           \<and> mask_frame a (lbl[nat (a_x a + a_roi_w a * a_y a) := a_current a]) (t_label t)"
proof -
  let ?l0 = "lbl[nat (a_x a + a_roi_w a * a_y a) := a_current a]"
  let ?s0 = "trace_init a ?l0 c al"
  have st: "store lbl (a_x a + a_roi_w a * a_y a) (a_current a) = Some ?l0"
    by (rule store_in_roi[OF start len])
  have i0: "0 \<le> t_i ?s0" "t_i ?s0 < 8" by (simp_all add: trace_init_def)
  have at: "at_isolated_start a (?s0\<lparr>t_j := 0\<rparr>)"
    using len by (simp add: at_isolated_start_def trace_init_def)
  obtain s1 where s1: "neighbour_scan a (?s0\<lparr>t_j := 0\<rparr>) = Inr s1"
      "mask_frame a ?l0 (t_label s1)"
    using neighbour_scan_isolated[OF iso dims start, of "?s0\<lparr>t_j := 0\<rparr>"] at
    by (auto simp: trace_init_def)
  have post: "scan_post a (?s0\<lparr>t_j := 0\<rparr>) s1"
    using neighbour_scan_order[where a = a and s = "?s0\<lparr>t_j := 0\<rparr>"] s1(1) i0 by simp
  have j8: "t_j s1 = 8"
  proof (rule ccontr)
    assume "t_j s1 \<noteq> 8"
    moreover have "t_j s1 \<le> 8" using post by (simp add: scan_post_def)
    ultimately have lt: "t_j s1 < 8" by simp
    let ?d = "t_i s1"
    have d: "0 \<le> ?d" "?d < 8" using post by (simp_all add: scan_post_def)
    have "fg_at a (t_x0 s1) (t_y0 s1)" "(t_x0 s1, t_y0 s1) = nb_of (?s0\<lparr>t_j := 0\<rparr>) ?d"
      using post lt by (simp_all add: scan_post_def)
    then have "fg_at a (a_x a + dx ?d) (a_y a + dy ?d)"
      using start_neighbour[OF dims start d] by (simp add: nb_of_def trace_init_def)
    then show False using isolated_dir[OF iso d] by (auto simp: fg_at_def)
  qed
  have same: "t_x0 s1 = a_x a" "t_y0 s1 = a_y a"
    using post j8 by (simp_all add: scan_post_def trace_init_def)
  obtain al' where b: "granting al'" "trace_body a ?s0 =
         (case walk_step a ?s0 of Inl f \<Rightarrow> Fault f
          | Inr w \<Rightarrow> Continue (with_contour
              (map_option (\<lambda>c. pushed c (a_roi_x a + t_x0 ?s0) (a_roi_y a + t_y0 ?s0)) (t_contour ?s0)) al' w))"
    using trace_body_granting[of ?s0 a] g by (auto simp: trace_init_def)
  let ?t = "with_contour (map_option (\<lambda>c. pushed c (a_roi_x a + a_x a) (a_roi_y a + a_y a)) c) al'
              (finish s1)"
  have ws: "walk_step a ?s0 = Inr (finish s1)" using s1(1) by (simp add: walk_step_def)
  have body: "trace_body a ?s0 = Continue ?t"
    using b(2) ws by (simp add: trace_init_def)
  have fin: "t_done (finish s1)" "t_label (finish s1) = t_label s1"
    using j8 by (simp_all add: finish_def Let_def)
  have "trace_loop a ?t = Some (Inr (1, ?t))"
    using fin(1) by (subst trace_loop.simps) simp
  moreover have "trace_loop a ?s0 = trace_loop a ?t"
    using body by (subst trace_loop.simps) (simp add: trace_init_def)
  ultimately have "contour_trace a lbl c al = Some (Inr (1, ?t))"
    using st by (simp add: contour_trace_def)
  then show ?thesis using b(1) fin(2) s1(2) by (intro exI[of _ ?t]) simp
qed

section \<open>The extraction flag\<close>

lemma perform_simps [simp]:
  "perform e i j s (Inl f) = Some (Fault f)"
  "perform e i j s (Inr Skip) = Some (Continue s)"
  "perform e i j s (Inr External) = new_external e i j s"
  "perform e i j s (Inr (Internal cl)) = new_internal e i j cl s"
  "perform e i j s (Inr (Interior l')) = Some (Continue (s\<lparr>s_label := l'\<rparr>))"
  by (simp_all add: perform_def)

lemma pixel_step_classify:
  "pixel_step e i j s = perform e i j s (classify e i j (s_label s))"
  unfolding pixel_step_def classify_def Let_def
  by (simp add: option.case_distrib[of "perform e i j s"] if_distrib[of "perform e i j s"]
        cong: option.case_cong if_cong)

lemma classify_same_scene: "same_scene e1 e0 \<Longrightarrow> classify e1 i j lbl = classify e0 i j lbl"
  by (simp add: classify_def same_scene_def Let_def cong: option.case_cong if_cong)

lemma trace_call_same_scene: "same_scene e1 e0 \<Longrightarrow> trace_call e1 ext cur i j = trace_call e0 ext cur i j"
  by (simp add: trace_call_def same_scene_def)

lemma flow_sim_simps [simp]:
  "flow_sim None None"
  "flow_sim (Some (Continue s1)) (Some (Continue s0)) = scan_sim s1 s0"
  "flow_sim (Some (Return rc1 s1)) (Some (Return rc0 s0)) = (rc1 = rc0 \<and> scan_sim s1 s0)"
  "flow_sim (Some (Fault f1)) (Some (Fault f0)) = (f1 = f0)"
  by (simp_all add: flow_sim_def)

lemma tsim_sym: "tsim s1 s2 \<Longrightarrow> tsim s2 s1"
  by (auto simp: tsim_def same_walk_def)

lemma map_sum_with_contour:
  "map_sum id (with_contour c al) r = Inr s' \<Longrightarrow> t_contour s' = c \<and> t_alloc s' = al"
  by (cases r) auto

lemma trace_loop_contour_aux:
  assumes run: "trace_loop a s = Some r"
  shows "\<forall>rc t. r = Inr (rc, t) \<longrightarrow> (t_contour t = None) = (t_contour s = None)"
proof (rule trace_loop.raw_induct[OF _ run,
        where P = "\<lambda>a s r. \<forall>rc t. r = Inr (rc, t) \<longrightarrow> (t_contour t = None) = (t_contour s = None)"],
       goal_cases)
  case (1 loop a s r)
  note IH = 1(1) and eq = 1(2)
  show ?case
  proof (intro allI impI)
    fix rc t
    assume r: "r = Inr (rc, t)"
    show "(t_contour t = None) = (t_contour s = None)"
    proof (cases "t_done s")
      case True
      then show ?thesis using eq r by simp
    next
      case False
      show ?thesis
      proof (cases "trace_body a s")
        case (Continue s')
        then have "loop a s' = Some (Inr (rc, t))" using eq False r by simp
        then have "(t_contour t = None) = (t_contour s' = None)" using IH by blast
        moreover have "(t_contour s' = None) = (t_contour s = None)"
          using Continue
          by (auto simp: trace_body_unfold walk_step_with_contour
                split: option.splits prod.splits if_splits sum.splits
                dest!: map_sum_with_contour)
        ultimately show ?thesis by simp
      next
        case (Return rc' s')
        then have "t = s'" using eq False r by simp
        then show ?thesis
          using Return
          by (auto simp: trace_body_unfold with_contour_def
                split: option.splits prod.splits if_splits sum.splits)
      next
        case (Fault f)
        then show ?thesis using eq False r by simp
      qed
    qed
  qed
qed

lemma contour_trace_sim:
  assumes "granting al1" "granting al2" "c1 = None \<or> c2 = None \<or> c1 = c2"
  shows "case (contour_trace a lbl c1 al1, contour_trace a lbl c2 al2) of
           (None, None) \<Rightarrow> True
         | (Some (Inl f1), Some (Inl f2)) \<Rightarrow> f1 = f2
         | (Some (Inr (rc1, t1)), Some (Inr (rc2, t2))) \<Rightarrow>
             t_label t1 = t_label t2 \<and> granting (t_alloc t1) \<and> granting (t_alloc t2)
             \<and> (t_contour t1 = None) = (c1 = None) \<and> (t_contour t2 = None) = (c2 = None)
             \<and> (c1 = c2 \<longrightarrow> t_contour t1 = t_contour t2)
         | _ \<Rightarrow> False"
proof (cases "store lbl (a_x a + a_roi_w a * a_y a) (a_current a)")
  case None
  then show ?thesis by (simp add: contour_trace_def)
next
  case (Some l')
  let ?s1 = "trace_init a l' c1 al1" and ?s2 = "trace_init a l' c2 al2"
  have sim: "tsim ?s1 ?s2" using assms by (auto simp: tsim_def same_walk_def trace_init_def)
  have ct: "contour_trace a lbl c1 al1 = trace_loop a ?s1" "contour_trace a lbl c2 al2 = trace_loop a ?s2"
    using Some by (simp_all add: contour_trace_def)
  show ?thesis
  proof (cases "trace_loop a ?s1")
    case None
    have "trace_loop a ?s2 = None"
    proof (cases "trace_loop a ?s2")
      case (Some r2)
      then show ?thesis using trace_loop_sim[OF Some tsim_sym[OF sim]] None by simp
    qed simp
    then show ?thesis using None ct by simp
  next
    case r1: (Some r1)
    then obtain r2 where r2: "trace_loop a ?s2 = Some r2" "rsim r1 r2"
      using trace_loop_sim[OF r1 sim] by blast
    show ?thesis
    proof (cases r1)
      case (Inl f)
      then show ?thesis using r1 r2 ct by (cases r2) (simp_all add: rsim_def)
    next
      case (Inr p1)
      then obtain p2 where p2: "r2 = Inr p2" using r2(2) by (cases r2) (simp_all add: rsim_def)
      obtain rc1 t1 rc2 t2 where p: "p1 = (rc1, t1)" "p2 = (rc2, t2)" by (cases p1; cases p2) auto
      have ts: "tsim t1 t2" using r2(2) Inr p2 p by (simp add: rsim_def)
      have n1: "(t_contour t1 = None) = (c1 = None)"
        using trace_loop_contour_aux[OF r1] Inr p by (simp add: trace_init_def)
      have n2: "(t_contour t2 = None) = (c2 = None)"
        using trace_loop_contour_aux[OF r2(1)] p2 p by (simp add: trace_init_def)
      show ?thesis
        using r1 r2(1) ct Inr p2 p ts n1 n2
        by (auto simp: tsim_def same_walk_def)
    qed
  qed
qed

lemma blob_sim_zero: "blob_sim zero_blob zero_blob"
  by (simp add: blob_sim_def zero_blob_def contour_list_def)

lemma list_all2_load:
  assumes "list_all2 P xs ys"
  shows "(load xs k = None \<and> load ys k = None)
         \<or> (\<exists>x y. load xs k = Some x \<and> load ys k = Some y \<and> P x y)"
  using assms list_all2_lengthD[OF assms]
  by (auto simp: load_def list_all2_conv_all_nth)

lemma new_external_sim:
  assumes sc: "same_scene e1 e0" and sim: "scan_sim s1 s0"
  shows "flow_sim (new_external e1 i j s1) (new_external e0 i j s0)"
proof -
  let ?bl1 = "blob_list (s_blobs s1) @ [zero_blob]" and ?bl0 = "blob_list (s_blobs s0) @ [zero_blob]"
  have eq: "s_label s1 = s_label s0" "s_count s1 = s_count s0" "s_current s1 = s_current s0"
    and g: "granting (s_alloc s1)" "granting (s_alloc s0)"
    and bl: "list_all2 blob_sim ?bl1 ?bl0"
    using sim by (auto simp: scan_sim_def blob_sim_zero intro!: list_all2_appendI)
  obtain al1 al0 where al: "alloc (s_alloc s1) = (True, al1)" "granting al1"
      "alloc (s_alloc s0) = (True, al0)" "granting al0"
    using alloc_granting[OF g(1)] alloc_granting[OF g(2)] by blast
  from list_all2_load[OF bl, of "s_count s0"] show ?thesis
  proof (elim disjE conjE exE)
    assume "load ?bl1 (s_count s0) = None" "load ?bl0 (s_count s0) = None"
    then show ?thesis using al eq by (simp add: new_external_unfold)
  next
    fix b1 b0
    assume ld: "load ?bl1 (s_count s0) = Some b1" "load ?bl0 (s_count s0) = Some b0"
      and bs: "blob_sim b1 b0"
    let ?a = "trace_call e0 1 (s_current s0) i j"
    have ext: "external b1 = external b0" using bs by (simp add: blob_sim_def)
    note ct = contour_trace_sim[OF al(2,4), of "Some (external b0)" "Some (external b0)" ?a "s_label s0"]
    show ?thesis
    proof (cases "contour_trace ?a (s_label s0) (Some (external b0)) al1")
      case None
      then have "contour_trace ?a (s_label s0) (Some (external b0)) al0 = None"
        using ct by (auto split: option.splits sum.splits)
      then show ?thesis
        using None al eq ld ext trace_call_same_scene[OF sc]
        by (simp add: new_external_unfold)
    next
      case (Some r1)
      show ?thesis
      proof (cases r1)
        case (Inl f)
        then have "contour_trace ?a (s_label s0) (Some (external b0)) al0 = Some (Inl f)"
          using ct Some by (auto split: option.splits sum.splits)
        then show ?thesis
          using Some Inl al eq ld ext trace_call_same_scene[OF sc]
          by (simp add: new_external_unfold)
      next
        case (Inr p1)
        obtain rc1 t1 where p1: "p1 = (rc1, t1)" by (cases p1) auto
        obtain rc0 t0 where r0: "contour_trace ?a (s_label s0) (Some (external b0)) al0
              = Some (Inr (rc0, t0))"
          and res: "t_label t1 = t_label t0" "granting (t_alloc t1)" "granting (t_alloc t0)"
             "t_contour t1 = t_contour t0"
          using ct Some Inr p1 by (auto split: option.splits sum.splits)
        let ?c = "case t_contour t0 of None \<Rightarrow> external b0 | Some c \<Rightarrow> c"
        have "blob_sim (b1\<lparr>label := s_current s0, external := ?c\<rparr>)
                       (b0\<lparr>label := s_current s0, external := ?c\<rparr>)"
          using bs by (simp add: blob_sim_def)
        then have "list_all2 blob_sim (?bl1[nat (s_count s0) := b1\<lparr>label := s_current s0, external := ?c\<rparr>])
                     (?bl0[nat (s_count s0) := b0\<lparr>label := s_current s0, external := ?c\<rparr>])"
          using bl by (intro list_all2_update_cong)
        moreover have "(case t_contour t0 of None \<Rightarrow> external b1 | Some c \<Rightarrow> c) = ?c"
          using ext by (simp split: option.splits)
        ultimately show ?thesis
          using Some Inr p1 r0 res al eq ld ext trace_call_same_scene[OF sc]
          by (simp add: new_external_unfold scan_sim_def blob_list_def)
      qed
    qed
  qed
qed

lemma new_internal_sim:
  assumes sc: "same_scene e1 e0" and sim: "scan_sim s1 s0"
  shows "flow_sim (new_internal e1 i j cl s1) (new_internal e0 i j cl s0)"
proof (cases "s_blobs s1")
  case None
  then have "s_blobs s0 = None" using sim by (simp add: scan_sim_def)
  then show ?thesis using None by (simp add: new_internal_unfold)
next
  case (Some arr1)
  then obtain arr0 where arr0: "s_blobs s0 = Some arr0" using sim by (auto simp: scan_sim_def)
  have eq: "s_label s1 = s_label s0" "s_count s1 = s_count s0" "s_current s1 = s_current s0"
    and g: "granting (s_alloc s1)" "granting (s_alloc s0)"
    and bl: "list_all2 blob_sim arr1 arr0"
    using sim Some arr0 by (simp_all add: scan_sim_def blob_list_def)
  have fl: "f_extract_internal e1 \<noteq> 0" "f_extract_internal e0 = 0"
    using sc by (simp_all add: same_scene_def)
  obtain al1 where al: "alloc (s_alloc s1) = (True, al1)" "granting al1"
    using alloc_granting[OF g(1)] by blast
  from list_all2_load[OF bl, of "cl - 1"] show ?thesis
  proof (elim disjE conjE exE)
    assume "load arr1 (cl - 1) = None" "load arr0 (cl - 1) = None"
    then show ?thesis using Some arr0 by (simp add: new_internal_unfold)
  next
    fix b1 b0
    assume ld: "load arr1 (cl - 1) = Some b1" "load arr0 (cl - 1) = Some b0"
      and bs: "blob_sim b1 b0"
    let ?a = "trace_call e0 0 cl i j"
    let ?cs = "contour_list (internal b1) @ [zero_contour]"
    have ic: "internal_count b1 = int (length (contour_list (internal b1)))"
      "internal_count b0 = internal_count b1" "internal b0 = None" "label b1 = label b0"
      "external b1 = external b0"
      using bs by (simp_all add: blob_sim_def)
    have lc: "load ?cs (internal_count b1) = Some zero_contour"
      using ic(1) by (simp add: load_Some)
    note ct = contour_trace_sim[OF al(2) g(2), of "Some zero_contour" None ?a "s_label s0"]
    note unf = new_internal_unfold Some arr0 ld fl al lc eq trace_call_same_scene[OF sc]
    show ?thesis
    proof (cases "contour_trace ?a (s_label s0) (Some zero_contour) al1")
      case None
      then have "contour_trace ?a (s_label s0) None (s_alloc s0) = None"
        using ct by (auto split: option.splits sum.splits)
      then show ?thesis using None by (simp add: unf)
    next
      case r1: (Some r1)
      show ?thesis
      proof (cases r1)
        case (Inl f)
        then have "contour_trace ?a (s_label s0) None (s_alloc s0) = Some (Inl f)"
          using ct r1 by (auto split: option.splits sum.splits)
        then show ?thesis using r1 Inl by (simp add: unf)
      next
        case (Inr p1)
        obtain rc1 t1 where p1: "p1 = (rc1, t1)" by (cases p1) auto
        obtain rc0 t0 where r0: "contour_trace ?a (s_label s0) None (s_alloc s0)
              = Some (Inr (rc0, t0))"
          and res: "t_label t1 = t_label t0" "granting (t_alloc t1)" "granting (t_alloc t0)"
          using ct r1 Inr p1 by (auto split: option.splits sum.splits)
        let ?b1 = "b1\<lparr>internal_count := internal_count b1 + 1,
                     internal := Some (?cs[nat (internal_count b1) :=
                        (case t_contour t1 of None \<Rightarrow> zero_contour | Some c' \<Rightarrow> c')])\<rparr>"
        let ?b0 = "b0\<lparr>internal_count := internal_count b0 + 1\<rparr>"
        have "blob_sim ?b1 ?b0"
          using ic by (simp add: blob_sim_def contour_list_def)
        then have "list_all2 blob_sim (arr1[nat (cl - 1) := ?b1]) (arr0[nat (cl - 1) := ?b0])"
          using bl by (intro list_all2_update_cong)
        then show ?thesis
          using r1 Inr p1 r0 res g
          by (simp add: unf scan_sim_def blob_list_def)
      qed
    qed
  qed
qed

lemma pixel_step_sim:
  assumes sc: "same_scene e1 e0" and sim: "scan_sim s1 s0"
  shows "flow_sim (pixel_step e1 i j s1) (pixel_step e0 i j s0)"
proof -
  have l: "s_label s1 = s_label s0" using sim by (simp add: scan_sim_def)
  have c: "classify e1 i j (s_label s1) = classify e0 i j (s_label s0)"
    using classify_same_scene[OF sc] l by simp
  show ?thesis
  proof (cases "classify e0 i j (s_label s0)")
    case (Inl f)
    then show ?thesis using c by (simp add: pixel_step_classify)
  next
    case (Inr act)
    then show ?thesis
      using c sim new_external_sim[OF sc sim] new_internal_sim[OF sc sim]
      by (cases act) (simp_all add: pixel_step_classify scan_sim_def)
  qed
qed

lemma flow_sim_cases [consumes 1, case_names diverge continue return fault]:
  assumes "flow_sim r1 r0"
  obtains "r1 = None" "r0 = None"
  | s1 s0 where "r1 = Some (Continue s1)" "r0 = Some (Continue s0)" "scan_sim s1 s0"
  | rc s1 s0 where "r1 = Some (Return rc s1)" "r0 = Some (Return rc s0)" "scan_sim s1 s0"
  | f where "r1 = Some (Fault f)" "r0 = Some (Fault f)"
proof (cases r1)
  case None
  then show ?thesis using assms that(1) by (cases r0) (simp_all add: flow_sim_def)
next
  case r1: (Some x1)
  show ?thesis
  proof (cases r0)
    case None
    then show ?thesis using assms r1 by (cases x1) (simp_all add: flow_sim_def)
  next
    case (Some x0)
    then show ?thesis using assms r1 that(2,3,4)
      by (cases x1; cases x0) (simp_all add: flow_sim_def)
  qed
qed

lemma scan_cols_stop: "\<not> i < f_roi_w e \<Longrightarrow> scan_cols e j i s = Some (Continue s)"
  by (subst scan_cols.simps) simp

lemma scan_cols_step:
  "i < f_roi_w e \<Longrightarrow> scan_cols e j i s =
     (case pixel_step e i j s of Some (Continue s') \<Rightarrow> scan_cols e j (i + 1) s' | r \<Rightarrow> r)"
  by (subst scan_cols.simps) simp

lemma scan_rows_stop: "\<not> j < f_roi_h e \<Longrightarrow> scan_rows e j s = Some (Continue s)"
  by (subst scan_rows.simps) simp

lemma scan_rows_step:
  "j < f_roi_h e \<Longrightarrow> scan_rows e j s =
     (case scan_cols e j 0 s of Some (Continue s') \<Rightarrow> scan_rows e (j + 1) s' | r \<Rightarrow> r)"
  by (subst scan_rows.simps) simp

lemma scan_cols_sim:
  assumes "same_scene e1 e0" and "scan_sim s1 s0"
  shows "flow_sim (scan_cols e1 j i s1) (scan_cols e0 j i s0)"
  using assms
proof (induction e1 j i s1 arbitrary: s0 rule: scan_cols.induct)
  case (1 e1 j i s1)
  note sc = "1.prems"(1) and sim = "1.prems"(2)
  have w: "f_roi_w e1 = f_roi_w e0" using sc by (simp add: same_scene_def)
  show ?case
  proof (cases "i < f_roi_w e1")
    case False
    then show ?thesis
      using sim w by (simp add: scan_cols_stop)
  next
    case True
    from pixel_step_sim[OF sc sim, of i j] show ?thesis
    proof (cases rule: flow_sim_cases)
      case diverge
      then show ?thesis
        using True w by (simp add: scan_cols_step)
    next
      case (continue s1' s0')
      have "flow_sim (scan_cols e1 j (i + 1) s1') (scan_cols e0 j (i + 1) s0')"
        by (rule "1.IH"[OF True continue(1) refl sc continue(3)])
      then show ?thesis
        using True w continue by (simp add: scan_cols_step)
    next
      case (return rc s1' s0')
      then show ?thesis
        using True w by (simp add: scan_cols_step)
    next
      case (fault f)
      then show ?thesis
        using True w by (simp add: scan_cols_step)
    qed
  qed
qed

lemma scan_rows_sim:
  assumes "same_scene e1 e0" and "scan_sim s1 s0"
  shows "flow_sim (scan_rows e1 j s1) (scan_rows e0 j s0)"
  using assms
proof (induction e1 j s1 arbitrary: s0 rule: scan_rows.induct)
  case (1 e1 j s1)
  note sc = "1.prems"(1) and sim = "1.prems"(2)
  have h: "f_roi_h e1 = f_roi_h e0" using sc by (simp add: same_scene_def)
  show ?case
  proof (cases "j < f_roi_h e1")
    case False
    then show ?thesis
      using sim h by (simp add: scan_rows_stop)
  next
    case True
    from scan_cols_sim[OF sc sim, of j 0] show ?thesis
    proof (cases rule: flow_sim_cases)
      case diverge
      then show ?thesis
        using True h by (simp add: scan_rows_step)
    next
      case (continue s1' s0')
      have "flow_sim (scan_rows e1 (j + 1) s1') (scan_rows e0 (j + 1) s0')"
        by (rule "1.IH"[OF True continue(1) refl sc continue(3)])
      then show ?thesis
        using True h continue by (simp add: scan_rows_step)
    next
      case (return rc s1' s0')
      then show ?thesis
        using True h by (simp add: scan_rows_step)
    next
      case (fault f)
      then show ?thesis
        using True h by (simp add: scan_rows_step)
    qed
  qed
qed

lemma scan_sim_summary:
  assumes "scan_sim s1 s0"
  shows "output_summary (scan_result out s1) = output_summary (scan_result out s0)"
proof -
  have "map blob_summary bs1 = map blob_summary bs0" if "list_all2 blob_sim bs1 bs0" for bs1 bs0
    using that by (induction rule: list_all2_induct) (simp_all add: blob_sim_def blob_summary_def)
  then show ?thesis
    using assms
    by (cases "s_blobs s1"; cases "s_blobs s0")
       (simp_all add: scan_sim_def output_summary_def scan_result_def blob_list_def)
qed

text \<open>
  With allocators that refuse nothing, a call with a nonzero \<^verbatim>\<open>extract_internal\<close>
  and a call with \<^verbatim>\<open>extract_internal = 0\<close> on the same mask and ROI end alike (both
  return, both run into the same undefined behaviour, or neither returns), and when they
  return they return the same value, the same label buffer and dimensions, the same
  count, and blobs with the same labels, external contours and \<open>internal_count\<close>.
\<close>

lemma extract_internal_only_fills_arrays:
  assumes "ex \<noteq> 0" and "granting al1" and "granting al0"
  shows "call_summary (find_blobs roi_x roi_y roi_w roi_h inp in_w in_h out ex al1)
       = call_summary (find_blobs roi_x roi_y roi_w roi_h inp in_w in_h out 0 al0)"
proof (cases out)
  case None
  then show ?thesis by (simp add: find_blobs_def call_summary_def)
next
  case (Some out0)
  show ?thesis
  proof (cases "adjust_roi (s16 roi_x) (s16 roi_y) (s16 roi_w) (s16 roi_h) (s16 in_w) (s16 in_h)")
    case None
    then show ?thesis using Some by (simp add: find_blobs_def call_summary_def)
  next
    case roi: (Some q)
    obtain rx ry rw rh where q: "q = (rx, ry, rw, rh)" by (cases q) auto
    obtain a1 a0 where al: "alloc al1 = (True, a1)" "granting a1" "alloc al0 = (True, a0)" "granting a0"
      using alloc_granting[OF assms(2)] alloc_granting[OF assms(3)] by blast
    let ?e1 = "\<lparr>f_roi_x = rx, f_roi_y = ry, f_roi_w = rw, f_roi_h = rh, f_in = inp,
                  f_in_w = s16 in_w, f_extract_internal = ex\<rparr>"
    let ?e0 = "\<lparr>f_roi_x = rx, f_roi_y = ry, f_roi_w = rw, f_roi_h = rh, f_in = inp,
                  f_in_w = s16 in_w, f_extract_internal = 0\<rparr>"
    have sc: "same_scene ?e1 ?e0" using assms(1) by (simp add: same_scene_def)
    have "scan_sim (scan_init rw rh a1) (scan_init rw rh a0)"
      using al by (simp add: scan_sim_def scan_init_def blob_list_def)
    from scan_rows_sim[OF sc this, of 0] show ?thesis
    proof (cases rule: flow_sim_cases)
      case diverge
      then show ?thesis using Some roi q al by (simp add: find_blobs_def call_summary_def)
    next
      case (continue s1 s0)
      then show ?thesis
        using Some roi q al scan_sim_summary[OF continue(3)]
        by (simp add: find_blobs_def call_summary_def)
    next
      case (return rc s1 s0)
      then show ?thesis
        using Some roi q al scan_sim_summary[OF return(3)]
        by (simp add: find_blobs_def call_summary_def)
    next
      case (fault f)
      then show ?thesis using Some roi q al by (simp add: find_blobs_def call_summary_def)
    qed
  qed
qed

section \<open>Masks of isolated pixels\<close>

lemma mask_at_trace_call: "mask_at (trace_call e ext cur i j) x y = pixel e x y"
  by (simp add: mask_at_def trace_call_def pixel_def algebra_simps)

lemma isolated_trace_call: "isolated (trace_call e ext cur x y) = isolated (trace_call e 1 0 x y)"
  by (simp add: isolated_def in_roi_trace_call mask_at_trace_call)

lemma roi_dims_trace_call:
  "roi_dims_ok (trace_call e ext cur x y)
     = (0 < f_roi_w e \<and> f_roi_w e \<le> 32767 \<and> 0 < f_roi_h e \<and> f_roi_h e \<le> 32767)"
  by (simp add: roi_dims_ok_def trace_call_def)





lemma isolated_above:
  assumes "isolated (trace_call e ext cur x y)" "in_frame e x (y - 1)"
  shows "pixel e x (y - 1) = Some 0"
  using assms(1) assms(2)
  by (simp add: isolated_def in_roi_trace_call mask_at_trace_call dx_def dy_def in_frame_def)

lemma pixel_step_background:
  assumes "pixel e i j = Some 0"
  shows "pixel_step e i j s = Some (Continue s)"
  using assms by (simp add: pixel_step_classify classify_def pixel_def)


lemma a_roi_w_trace_call [simp]: "a_roi_w (trace_call e ext cur i j) = f_roi_w e"
  "a_roi_h (trace_call e ext cur i j) = f_roi_h e" "a_current (trace_call e ext cur i j) = cur"
  by (simp_all add: trace_call_def)







section \<open>More than 32767 blobs\<close>

















section \<open>A pixel that no walk enters\<close>

lemma opposite_direction:
  assumes "0 \<le> d" "d < 8"
  shows "0 \<le> (d + 4) mod 8 \<and> (d + 4) mod 8 < 8
         \<and> dx ((d + 4) mod 8) = - dx d \<and> dy ((d + 4) mod 8) = - dy d"
  using direction_cases[OF assms] by (auto simp: dx_def dy_def)

lemma nth_store_other:
  assumes "store l (x' + w * y') v = Some l'" "0 \<le> x'" "x' < w" "0 \<le> y'"
    and "0 \<le> x" "x < w" "0 \<le> (y :: int)" "(x', y') \<noteq> (x, y)"
  shows "l' ! nat (x + w * y) = l ! nat (x + w * y)"
proof -
  have "x' + w * y' \<noteq> x + w * y"
    using offset_inj[of x' w x y' y] assms by auto
  moreover have "0 \<le> x' + w * y'" "0 \<le> x + w * y" using assms by simp_all
  ultimately have "nat (x' + w * y') \<noteq> nat (x + w * y)" by simp
  moreover have "l' = l[nat (x' + w * y') := v]"
    using assms(1) by (auto simp: store_def split: if_splits)
  ultimately show ?thesis by simp
qed

lemma length_store: "store l k v = Some l' \<Longrightarrow> length l' = length l"
  by (auto simp: store_def split: if_splits)

lemma neighbour_scan_lone:
  assumes nb: "\<And>d. 0 \<le> d \<Longrightarrow> d < 8 \<Longrightarrow>
                 \<not> in_roi a (x + dx d) (y + dy d) \<or> mask_at a (x + dx d) (y + dy d) = Some 0"
    and P: "in_roi a x y" "mask_at a x y \<noteq> Some 0" and dims: "roi_dims_ok a"
  shows "on_fg a s \<longrightarrow>
     (case neighbour_scan a s of Inl f \<Rightarrow> True
      | Inr s' \<Rightarrow> on_fg a s'
          \<and> t_label s' ! nat (x + a_roi_w a * y) = t_label s ! nat (x + a_roi_w a * y))"
proof (rule neighbour_scan_cases[where a = a and s = s and
        P = "\<lambda>s r. on_fg a s \<longrightarrow>
     (case r of Inl f \<Rightarrow> True
      | Inr s' \<Rightarrow> on_fg a s'
          \<and> t_label s' ! nat (x + a_roi_w a * y) = t_label s ! nat (x + a_roi_w a * y))"],
       goal_cases)
  case (1 s)
  then show ?case by simp
next
  case (2 s)
  have "on_fg a s \<Longrightarrow> on_fg a (skip s)" by (simp add: on_fg_def skip_def and7)
  then show ?case using 2(3) by (auto simp: skip_def split: sum.splits)
next
  case (3 s)
  then show ?case by simp
next
  case (4 s p l')
  show ?case
  proof
    assume st: "on_fg a s"
    have pos: "in_roi a (t_x0 s) (t_y0 s)" and i: "0 \<le> t_i s" "t_i s < 8"
      and m: "mask_at a (t_x0 s) (t_y0 s) \<noteq> Some 0"
      using st by (simp_all add: on_fg_def)
    have nbs: "nb_x s = t_x0 s + dx (t_i s)" "nb_y s = t_y0 s + dy (t_i s)"
      using start_neighbour[OF dims pos i] by (simp_all add: nb_x_def nb_y_def)
    have ne: "(nb_x s, nb_y s) \<noteq> (x, y)"
    proof
      assume eq: "(nb_x s, nb_y s) = (x, y)"
      note o = opposite_direction[OF i]
      have "t_x0 s = x + dx ((t_i s + 4) mod 8)" "t_y0 s = y + dy ((t_i s + 4) mod 8)"
        using eq nbs o by simp_all
      then show False using nb[of "(t_i s + 4) mod 8"] o pos m by simp
    qed
    have keep: "l' ! nat (x + a_roi_w a * y) = t_label s ! nat (x + a_roi_w a * y)"
      using nth_store_other[OF 4(5) _ _ _ _ _ _ ne] 4(2) P(1) by (simp add: in_roi_def)
    have "on_fg a (accept a s l')"
      using st 4(2,3,4) length_store[OF 4(5)] by (simp add: on_fg_def accept_def)
    then show "case Inr (accept a s l') of Inl f \<Rightarrow> True
      | Inr s' \<Rightarrow> on_fg a s'
          \<and> t_label s' ! nat (x + a_roi_w a * y) = t_label s ! nat (x + a_roi_w a * y)"
      using keep by (simp add: accept_def)
  qed
next
  case (5 s p)
  then show ?case by simp
next
  case (6 s l')
  show ?case
  proof
    assume st: "on_fg a s"
    have ne: "(nb_x s, nb_y s) \<noteq> (x, y)" using 6(3) P(2) by auto
    have keep: "l' ! nat (x + a_roi_w a * y) = t_label s ! nat (x + a_roi_w a * y)"
      using nth_store_other[OF 6(4) _ _ _ _ _ _ ne] 6(2) P(1) by (simp add: in_roi_def)
    have "on_fg a ((skip s)\<lparr>t_label := l'\<rparr>)"
      using st length_store[OF 6(4)] by (simp add: on_fg_def skip_def and7)
    then show "case neighbour_scan a ((skip s)\<lparr>t_label := l'\<rparr>) of Inl f \<Rightarrow> True
      | Inr s' \<Rightarrow> on_fg a s'
          \<and> t_label s' ! nat (x + a_roi_w a * y) = t_label s ! nat (x + a_roi_w a * y)"
      using 6(5) keep by (auto split: sum.splits)
  qed
next
  case (7 s)
  then show ?case by simp
qed

lemma walk_step_lone:
  assumes nb: "\<And>d. 0 \<le> d \<Longrightarrow> d < 8 \<Longrightarrow>
                 \<not> in_roi a (x + dx d) (y + dy d) \<or> mask_at a (x + dx d) (y + dy d) = Some 0"
    and P: "in_roi a x y" "mask_at a x y \<noteq> Some 0" and dims: "roi_dims_ok a"
    and st: "on_fg a s" and w: "walk_step a s = Inr w"
  shows "on_fg a w \<and> t_label w ! nat (x + a_roi_w a * y) = t_label s ! nat (x + a_roi_w a * y)"
proof -
  obtain s1 where s1: "neighbour_scan a (s\<lparr>t_j := 0\<rparr>) = Inr s1" "w = finish s1"
    using w by (cases "neighbour_scan a (s\<lparr>t_j := 0\<rparr>)") (auto simp: walk_step_def)
  have "on_fg a (s\<lparr>t_j := 0\<rparr>)" using st by (simp add: on_fg_def)
  then have "on_fg a s1 \<and> t_label s1 ! nat (x + a_roi_w a * y) = t_label s ! nat (x + a_roi_w a * y)"
    using neighbour_scan_lone[OF nb P dims, of "s\<lparr>t_j := 0\<rparr>"] s1(1) by simp
  then show ?thesis unfolding s1(2) by (simp add: on_fg_def finish_def Let_def and7)
qed

lemma trace_loop_lone_aux:
  assumes run: "trace_loop a s = Some r"
  shows "(\<forall>d. 0 \<le> d \<longrightarrow> d < 8 \<longrightarrow>
                 \<not> in_roi a (x + dx d) (y + dy d) \<or> mask_at a (x + dx d) (y + dy d) = Some 0)
           \<longrightarrow> in_roi a x y \<longrightarrow> mask_at a x y \<noteq> Some 0 \<longrightarrow> roi_dims_ok a \<longrightarrow>
           (\<forall>rc t. r = Inr (rc, t) \<longrightarrow> granting (t_alloc s) \<longrightarrow> on_fg a s \<longrightarrow>
           t_label t ! nat (x + a_roi_w a * y) = t_label s ! nat (x + a_roi_w a * y))"
proof (rule trace_loop.raw_induct[OF _ run,
        where P = "\<lambda>a s r.
           (\<forall>d. 0 \<le> d \<longrightarrow> d < 8 \<longrightarrow>
                 \<not> in_roi a (x + dx d) (y + dy d) \<or> mask_at a (x + dx d) (y + dy d) = Some 0)
           \<longrightarrow> in_roi a x y \<longrightarrow> mask_at a x y \<noteq> Some 0 \<longrightarrow> roi_dims_ok a \<longrightarrow>
           (\<forall>rc t. r = Inr (rc, t) \<longrightarrow> granting (t_alloc s) \<longrightarrow> on_fg a s \<longrightarrow>
           t_label t ! nat (x + a_roi_w a * y) = t_label s ! nat (x + a_roi_w a * y))"],
       goal_cases)
  case (1 loop a s r)
  note IH = 1(1) and eq = 1(2)
  show ?case
  proof (intro allI impI)
    fix rc t
    assume nb0: "\<forall>d. 0 \<le> d \<longrightarrow> d < 8 \<longrightarrow>
                 \<not> in_roi a (x + dx d) (y + dy d) \<or> mask_at a (x + dx d) (y + dy d) = Some 0"
      and P: "in_roi a x y" "mask_at a x y \<noteq> Some 0" and dims: "roi_dims_ok a"
      and r: "r = Inr (rc, t)" and g: "granting (t_alloc s)" and st: "on_fg a s"
    have nb: "\<not> in_roi a (x + dx d) (y + dy d) \<or> mask_at a (x + dx d) (y + dy d) = Some 0"
      if "0 \<le> d" "d < 8" for d
      using nb0 that by blast
    show "t_label t ! nat (x + a_roi_w a * y) = t_label s ! nat (x + a_roi_w a * y)"
    proof (cases "t_done s")
      case True
      then show ?thesis using eq r by simp
    next
      case False
      obtain al1 where b1: "granting al1" "trace_body a s =
         (case walk_step a s of Inl f \<Rightarrow> Fault f
          | Inr w \<Rightarrow> Continue (with_contour
              (map_option (\<lambda>c. pushed c (a_roi_x a + t_x0 s) (a_roi_y a + t_y0 s)) (t_contour s)) al1 w))"
        using trace_body_granting[OF g] by blast
      show ?thesis
      proof (cases "walk_step a s")
        case (Inl f)
        then show ?thesis using eq False b1 r by simp
      next
        case (Inr w)
        let ?n = "with_contour
              (map_option (\<lambda>c. pushed c (a_roi_x a + t_x0 s) (a_roi_y a + t_y0 s)) (t_contour s)) al1 w"
        have lp: "loop a ?n = Some (Inr (rc, t))" using eq False b1 Inr r by simp
        have w: "on_fg a w" "t_label w ! nat (x + a_roi_w a * y) = t_label s ! nat (x + a_roi_w a * y)"
          using walk_step_lone[OF nb P dims st Inr] by simp_all
        have n: "on_fg a ?n" using w(1) by (simp add: on_fg_def)
        from IH[OF lp, rule_format, OF _ P dims refl _ n] nb0 b1(1)
        have "t_label t ! nat (x + a_roi_w a * y) = t_label ?n ! nat (x + a_roi_w a * y)" by simp
        then show ?thesis using w(2) by simp
      qed
    qed
  qed
qed

lemma contour_trace_lone:
  assumes run: "contour_trace a lbl c al = Some (Inr (rc, t))" and g: "granting al"
    and nb: "\<And>d. 0 \<le> d \<Longrightarrow> d < 8 \<Longrightarrow>
                 \<not> in_roi a (x + dx d) (y + dy d) \<or> mask_at a (x + dx d) (y + dy d) = Some 0"
    and P: "in_roi a x y" "mask_at a x y \<noteq> Some 0" and dims: "roi_dims_ok a"
    and start: "in_roi a (a_x a) (a_y a)" "mask_at a (a_x a) (a_y a) \<noteq> Some 0"
      "(a_x a, a_y a) \<noteq> (x, y)"
    and len: "length lbl = nat (a_roi_w a * a_roi_h a)"
  shows "t_label t ! nat (x + a_roi_w a * y) = lbl ! nat (x + a_roi_w a * y)"
proof -
  obtain l' where l': "store lbl (a_x a + a_roi_w a * a_y a) (a_current a) = Some l'"
    using run by (auto simp: contour_trace_def split: option.splits)
  have lp: "trace_loop a (trace_init a l' c al) = Some (Inr (rc, t))"
    using run l' by (simp add: contour_trace_def)
  have st: "on_fg a (trace_init a l' c al)"
    using start(1,2) len length_store[OF l'] by (simp add: on_fg_def trace_init_def)
  have "t_label t ! nat (x + a_roi_w a * y) = t_label (trace_init a l' c al) ! nat (x + a_roi_w a * y)"
    using trace_loop_lone_aux[OF lp, rule_format, OF _ P dims refl _ st] nb g
    by (simp add: trace_init_def)
  moreover have "l' ! nat (x + a_roi_w a * y) = lbl ! nat (x + a_roi_w a * y)"
    using nth_store_other[OF l' _ _ _ _ _ _ start(3)] start(1) P(1) by (simp add: in_roi_def)
  ultimately show ?thesis by (simp add: trace_init_def)
qed

lemma reaches_simps [simp]:
  "reaches K None" "reaches K (Some (Fault f))"
  "reaches K (Some (Continue s)) = K s" "reaches K (Some (Return rc s)) = False"
  by (simp_all add: reaches_def)

lemma lone_neighbours:
  assumes "lone e x y" "0 \<le> d" "d < 8"
  shows "\<not> in_roi (trace_call e ext cur i j) (x + dx d) (y + dy d)
         \<or> mask_at (trace_call e ext cur i j) (x + dx d) (y + dy d) = Some 0"
proof -
  have "isolated (trace_call e 1 0 x y)" using assms(1) by (simp add: lone_def)
  from isolated_dir[OF this assms(2,3)] show ?thesis
    by (simp add: in_roi_trace_call mask_at_trace_call)
qed

lemma lone_fg:
  assumes "lone e x y"
  shows "in_roi (trace_call e ext cur i j) x y" "mask_at (trace_call e ext cur i j) x y \<noteq> Some 0"
    "\<exists>p. pixel e x y = Some p \<and> p \<noteq> 0"
  using assms
  by (auto simp: lone_def in_roi_trace_call mask_at_trace_call in_frame_def split: option.splits)

lemma classify_lone:
  assumes lo: "lone e x y" and len: "length lbl = nat (f_roi_w e * f_roi_h e)"
    and zero: "lbl ! nat (x + f_roi_w e * y) = 0"
  shows "classify e x y lbl = Inr External \<or> classify e x y lbl = Inl OutOfBounds"
proof -
  have fr: "in_frame e x y" and iso: "isolated (trace_call e 1 0 x y)"
    using lo by (simp_all add: lone_def)
  obtain p where p: "load (f_in e) (f_roi_x e + f_in_w e * f_roi_y e + f_in_w e * y + x) = Some p"
      "p \<noteq> 0"
    using lone_fg(3)[OF lo] by (auto simp: pixel_def)
  have above: "(if y > 0 then load (f_in e) (f_roi_x e + f_in_w e * f_roi_y e + f_in_w e * y + x - f_in_w e)
                else Some 0) = Some 0"
  proof (cases "y > 0")
    case True
    then have "in_frame e x (y - 1)" using fr by (simp add: in_frame_def)
    then have "pixel e x (y - 1) = Some 0" by (rule isolated_above[OF iso])
    then show ?thesis using True by (simp add: pixel_def algebra_simps)
  next
    case False
    then show ?thesis by simp
  qed
  have "0 \<le> x + f_roi_w e * y \<and> x + f_roi_w e * y < f_roi_w e * f_roi_h e"
    using fr by (intro offset_range) (simp_all add: in_frame_def)
  then have cur: "load lbl (x + f_roi_w e * y) = Some 0"
    using len zero by (simp add: load_Some)
  show ?thesis
    unfolding classify_def Let_def using p(2)
    by (simp add: p(1) above cur split: option.splits)
qed

lemma lone_inv_other:
  assumes inv: "lone_inv e x y n s" and ne: "n \<noteq> nat (x + f_roi_w e * y)"
    and "length (s_label s') = length (s_label s)" "granting (s_alloc s')"
    and "s_count s' = int (length (blob_list (s_blobs s')))"
    and "s_label s' ! nat (x + f_roi_w e * y) = s_label s ! nat (x + f_roi_w e * y)"
    and "set (map external (blob_list (s_blobs s))) \<subseteq> set (map external (blob_list (s_blobs s')))"
  shows "lone_inv e x y (Suc n) s'"
  using assms unfolding lone_inv_def by (auto split: if_splits)

lemma frame_index:
  assumes "in_frame e i j" "in_frame e x y"
  shows "(nat (i + f_roi_w e * j) = nat (x + f_roi_w e * y)) = ((i, j) = (x, y))"
proof -
  have "0 \<le> i + f_roi_w e * j" "0 \<le> x + f_roi_w e * y"
    using assms by (simp_all add: in_frame_def)
  then have "(nat (i + f_roi_w e * j) = nat (x + f_roi_w e * y))
               = (i + f_roi_w e * j = x + f_roi_w e * y)"
    by (rule eq_nat_nat_iff)
  also have "\<dots> = ((i, j) = (x, y))"
    using offset_inj[of i "f_roi_w e" x j y] assms by (auto simp: in_frame_def)
  finally show ?thesis .
qed

lemma one_point_pushed:
  "pushed (external zero_blob) (f_roi_x e + x) (f_roi_y e + y) = one_point e x y"
  by (simp add: pushed_def zero_blob_def zero_contour_def one_point_def)

lemma pixel_step_lone_here:
  assumes lo: "lone e x y"
    and dims: "0 < f_roi_w e" "f_roi_w e \<le> 32767" "0 < f_roi_h e" "f_roi_h e \<le> 32767"
    and inv: "lone_inv e x y (nat (x + f_roi_w e * y)) s"
  shows "reaches (lone_inv e x y (Suc (nat (x + f_roi_w e * y)))) (pixel_step e x y s)"
proof -
  let ?nP = "nat (x + f_roi_w e * y)"
  let ?bl = "blob_list (s_blobs s)"
  have len: "length (s_label s) = nat (f_roi_w e * f_roi_h e)"
    and g: "granting (s_alloc s)"
    and cnt: "s_count s = int (length ?bl)"
    and zero: "s_label s ! ?nP = 0"
    using inv by (simp_all add: lone_inv_def)
  have fr: "in_frame e x y" using lo by (simp add: lone_def)
  from classify_lone[OF lo len zero] show ?thesis
  proof
    assume "classify e x y (s_label s) = Inl OutOfBounds"
    then show ?thesis by (simp add: pixel_step_classify)
  next
    assume "classify e x y (s_label s) = Inr External"
    then have ps: "pixel_step e x y s = new_external e x y s" by (simp add: pixel_step_classify)
    show ?thesis
    proof (cases "new_external e x y s")
      case None
      then show ?thesis using ps by simp
    next
      case (Some r)
      from Some show ?thesis
      proof (cases rule: new_external_cases)
        case (fault f)
        then show ?thesis using ps Some by simp
      next
        case (failed al')
        then show ?thesis using alloc_granting_True[OF g failed(1)] by simp
      next
        case (traced al' b rc t)
        have g': "granting al'" using alloc_granting_True[OF g traced(1)] by simp
        have b: "b = zero_blob" using traced(2) cnt by (simp add: load_Some)
        let ?a = "trace_call e 1 (s_current s) x y"
        have iso: "isolated ?a" using lo isolated_trace_call[of e 1 "s_current s" x y]
          by (simp add: lone_def)
        have dm: "roi_dims_ok ?a" using dims by (simp add: roi_dims_trace_call)
        have start: "in_roi ?a (a_x ?a) (a_y ?a)"
          using fr by (simp add: in_roi_trace_call in_frame_def)
        have len': "length (s_label s) = nat (a_roi_w ?a * a_roi_h ?a)" using len by simp
        obtain t' where t': "contour_trace ?a (s_label s) (Some (external b)) al' = Some (Inr (1, t'))"
            "t_contour t' = map_option (\<lambda>c. pushed c (a_roi_x ?a + a_x ?a) (a_roi_y ?a + a_y ?a))
                               (Some (external b))"
            "granting (t_alloc t')"
            "mask_frame ?a ((s_label s)[?nP := s_current s]) (t_label t')"
          using contour_trace_isolated[OF iso dm start g' len', of "Some (external b)"] by auto
        have tt: "t = t'" using traced(3) t'(1) by simp
        have c: "t_contour t = Some (one_point e x y)"
          using t'(2) unfolding tt b by (simp add: one_point_pushed trace_call_def)
        have l: "length (t_label t) = nat (f_roi_w e * f_roi_h e)"
          using t'(4) len unfolding tt by (simp add: mask_frame_def)
        let ?b' = "b\<lparr>label := s_current s, external := one_point e x y\<rparr>"
        have upd: "(?bl @ [zero_blob])[nat (s_count s) := ?b'] = ?bl @ [?b']"
          using cnt by simp
        have "lone_inv e x y (Suc ?nP) 
                (s\<lparr>s_label := t_label t, s_blobs := Some (?bl @ [?b']),
                   s_count := s_count s + 1, s_current := s16 (s_current s + 1),
                   s_alloc := t_alloc t\<rparr>)"
          using l t'(3) cnt unfolding tt by (simp add: lone_inv_def blob_list_def)
        then show ?thesis using ps Some traced(4) c upd by simp
      qed
    qed
  qed
qed

lemma pixel_step_lone_other:
  assumes lo: "lone e x y"
    and dims: "0 < f_roi_w e" "f_roi_w e \<le> 32767" "0 < f_roi_h e" "f_roi_h e \<le> 32767"
    and fr: "in_frame e i j" and ne: "(i, j) \<noteq> (x, y)"
    and inv: "lone_inv e x y (nat (i + f_roi_w e * j)) s"
  shows "reaches (lone_inv e x y (Suc (nat (i + f_roi_w e * j)))) (pixel_step e i j s)"
proof (cases "pixel_step e i j s")
  case None
  then show ?thesis by simp
next
  case (Some r)
  let ?n = "nat (i + f_roi_w e * j)"
  let ?nP = "nat (x + f_roi_w e * y)"
  let ?bl = "blob_list (s_blobs s)"
  have len: "length (s_label s) = nat (f_roi_w e * f_roi_h e)"
    and g: "granting (s_alloc s)"
    and cnt: "s_count s = int (length ?bl)"
    using inv by (simp_all add: lone_inv_def)
  have frP: "in_frame e x y" using lo by (simp add: lone_def)
  have nn: "?n \<noteq> ?nP" using frame_index[OF fr frP] ne by simp
  have same: "lone_inv e x y (Suc ?n) s"
    by (rule lone_inv_other[OF inv nn]) (simp_all add: g cnt)
  show ?thesis
  proof (cases "pixel e i j = Some 0")
    case True
    then show ?thesis using same by (simp add: pixel_step_background)
  next
    case fg: False
    have dm: "roi_dims_ok (trace_call e ext cur i j)" for ext cur
      using dims by (simp add: roi_dims_trace_call)
    have start: "in_roi (trace_call e ext cur i j) (a_x (trace_call e ext cur i j))
                   (a_y (trace_call e ext cur i j))"
        "mask_at (trace_call e ext cur i j) (a_x (trace_call e ext cur i j))
                   (a_y (trace_call e ext cur i j)) \<noteq> Some 0"
        "(a_x (trace_call e ext cur i j), a_y (trace_call e ext cur i j)) \<noteq> (x, y)"
      for ext cur
      using fr fg ne by (simp_all add: in_roi_trace_call mask_at_trace_call in_frame_def)
    have len': "length (s_label s) = nat (a_roi_w (trace_call e ext cur i j)
                  * a_roi_h (trace_call e ext cur i j))" for ext cur
      using len by simp
    have keep: "t_label t ! ?nP = s_label s ! ?nP"
      if "contour_trace (trace_call e ext cur i j) (s_label s) c al = Some (Inr (rc, t))"
        "granting al" for ext cur c al rc t
      using contour_trace_lone[OF that lone_neighbours[OF lo] lone_fg(1,2)[OF lo] dm start len']
      by simp
    from Some show ?thesis
    proof (cases rule: pixel_step_cases)
      case unchanged
      then show ?thesis using Some same by simp
    next
      case (fault f)
      then show ?thesis using Some by simp
    next
      case external
      from external(2) show ?thesis
      proof (cases rule: new_external_cases)
        case (fault f)
        then show ?thesis using Some by simp
      next
        case (failed al')
        then show ?thesis using alloc_granting_True[OF g failed(1)] by simp
      next
        case (traced al' b rc t)
        have g': "granting al'" using alloc_granting_True[OF g traced(1)] by simp
        note res = contour_trace_result[OF traced(3) g' start(1)]
        let ?b' = "b\<lparr>label := s_current s,
                      external := (case t_contour t of None \<Rightarrow> external b | Some c \<Rightarrow> c)\<rparr>"
        have upd: "(?bl @ [zero_blob])[nat (s_count s) := ?b'] = ?bl @ [?b']"
          using cnt by simp
        have "lone_inv e x y (Suc ?n)
                (s\<lparr>s_label := t_label t, s_blobs := Some (?bl @ [?b']),
                   s_count := s_count s + 1, s_current := s16 (s_current s + 1),
                   s_alloc := t_alloc t\<rparr>)"
          by (rule lone_inv_other[OF inv nn])
             (use res cnt keep[OF traced(3) g'] in \<open>auto simp: blob_list_def\<close>)
        then show ?thesis using Some traced(4) upd by simp
      qed
    next
      case (internal current_label)
      from internal show ?thesis
      proof (cases rule: new_internal_cases)
        case (fault f)
        then show ?thesis using Some by simp
      next
        case (failed al')
        then show ?thesis using alloc_granting_True[OF g failed(2)] by simp
      next
        case (updated arr b b' c0 al0 rc t)
        have g0: "granting al0" using updated(5) g alloc_granting_True[OF g] by auto
        note res = contour_trace_result[OF updated(3) g0 start(1)]
        have "external b' = external b" using updated(5) by auto
        then have m: "map external (arr[nat (current_label - 1) := b']) = map external arr"
          by (rule nth_update_same_field[OF updated(2)])
        have bl: "?bl = arr" using updated(1) by (simp add: blob_list_def)
        have "lone_inv e x y (Suc ?n)
                (s\<lparr>s_label := t_label t, s_blobs := Some (arr[nat (current_label - 1) := b']),
                   s_alloc := t_alloc t\<rparr>)"
          by (rule lone_inv_other[OF inv nn])
             (use res cnt bl m keep[OF updated(3) g0] in \<open>auto simp: blob_list_def\<close>)
        then show ?thesis using Some updated(4) by simp
      qed
    next
      case (interior v l')
      have "l' ! ?nP = s_label s ! ?nP"
        using nth_store_other[OF interior(2) _ _ _ _ _ _ ne] fr frP by (simp add: in_frame_def)
      then have "lone_inv e x y (Suc ?n) (s\<lparr>s_label := l'\<rparr>)"
        using length_store[OF interior(2)] g cnt
        by (intro lone_inv_other[OF inv nn]) simp_all
      then show ?thesis using Some interior(3) by simp
    qed
  qed
qed

lemma pixel_step_lone:
  assumes lo: "lone e x y"
    and dims: "0 < f_roi_w e" "f_roi_w e \<le> 32767" "0 < f_roi_h e" "f_roi_h e \<le> 32767"
    and fr: "in_frame e i j"
    and inv: "lone_inv e x y (nat (i + f_roi_w e * j)) s"
  shows "reaches (lone_inv e x y (Suc (nat (i + f_roi_w e * j)))) (pixel_step e i j s)"
proof (cases "(i, j) = (x, y)")
  case True
  then show ?thesis using pixel_step_lone_here[OF lo dims] inv by simp
next
  case False
  then show ?thesis by (rule pixel_step_lone_other[OF lo dims fr _ inv])
qed

lemma scan_cols_reaches:
  assumes step: "\<And>i s. 0 \<le> i \<Longrightarrow> i < f_roi_w e \<Longrightarrow> K (nat (i + f_roi_w e * j)) s
                   \<Longrightarrow> reaches (K (Suc (nat (i + f_roi_w e * j)))) (pixel_step e i j s)"
    and j: "0 \<le> j" and i: "0 \<le> i" "i \<le> f_roi_w e"
    and inv: "K (nat (i + f_roi_w e * j)) s"
  shows "reaches (K (nat (f_roi_w e * (j + 1)))) (scan_cols e j i s)"
  using i inv
proof (induction "nat (f_roi_w e - i)" arbitrary: i s)
  case 0
  then have "i = f_roi_w e" by simp
  then have "scan_cols e j i s = Some (Continue s)" "i + f_roi_w e * j = f_roi_w e * (j + 1)"
    by (simp_all add: scan_cols_stop algebra_simps)
  then show ?case using "0.prems"(3) by simp
next
  case (Suc k)
  then have lt: "i < f_roi_w e" by simp
  have st: "reaches (K (Suc (nat (i + f_roi_w e * j)))) (pixel_step e i j s)"
    by (rule step[OF Suc.prems(1) lt Suc.prems(3)])
  have "0 \<le> f_roi_w e * j" using j lt Suc.prems(1) by simp
  then have n: "Suc (nat (i + f_roi_w e * j)) = nat (i + 1 + f_roi_w e * j)"
    using Suc.prems(1) by simp
  have k: "k = nat (f_roi_w e - (i + 1))" using Suc.hyps(2) by simp
  show ?case
  proof (cases "pixel_step e i j s")
    case None
    then show ?thesis using lt by (simp add: scan_cols_step)
  next
    case (Some r)
    show ?thesis
    proof (cases r)
      case (Continue s1)
      have "K (nat (i + 1 + f_roi_w e * j)) s1" using st Some Continue n by simp
      then have "reaches (K (nat (f_roi_w e * (j + 1)))) (scan_cols e j (i + 1) s1)"
        using Suc.hyps(1)[OF k] Suc.prems(1) lt by simp
      then show ?thesis using Some Continue lt by (simp add: scan_cols_step)
    next
      case (Return rc s1)
      then show ?thesis using st Some by simp
    next
      case (Fault f)
      then show ?thesis using Some lt by (simp add: scan_cols_step)
    qed
  qed
qed

lemma scan_rows_reaches:
  assumes step: "\<And>i j s. 0 \<le> i \<Longrightarrow> i < f_roi_w e \<Longrightarrow> 0 \<le> j \<Longrightarrow> j < f_roi_h e
                   \<Longrightarrow> K (nat (i + f_roi_w e * j)) s
                   \<Longrightarrow> reaches (K (Suc (nat (i + f_roi_w e * j)))) (pixel_step e i j s)"
    and w: "0 \<le> f_roi_w e" and j: "0 \<le> j" "j \<le> f_roi_h e"
    and inv: "K (nat (f_roi_w e * j)) s"
  shows "reaches (K (nat (f_roi_w e * f_roi_h e))) (scan_rows e j s)"
  using j inv
proof (induction "nat (f_roi_h e - j)" arbitrary: j s)
  case 0
  then have "j = f_roi_h e" by simp
  then show ?case using "0.prems"(3) by (simp add: scan_rows_stop)
next
  case (Suc k)
  then have lt: "j < f_roi_h e" by simp
  have st: "reaches (K (nat (f_roi_w e * (j + 1)))) (scan_cols e j 0 s)"
  proof (rule scan_cols_reaches)
    show "reaches (K (Suc (nat (i + f_roi_w e * j)))) (pixel_step e i j s')"
      if "0 \<le> i" "i < f_roi_w e" "K (nat (i + f_roi_w e * j)) s'" for i s'
      by (rule step[OF that(1,2) Suc.prems(1) lt that(3)])
  qed (use Suc.prems w in simp_all)
  have k: "k = nat (f_roi_h e - (j + 1))" using Suc.hyps(2) by simp
  show ?case
  proof (cases "scan_cols e j 0 s")
    case None
    then show ?thesis using lt by (simp add: scan_rows_step)
  next
    case (Some r)
    show ?thesis
    proof (cases r)
      case (Continue s1)
      have "K (nat (f_roi_w e * (j + 1))) s1" using st Some Continue by simp
      then have "reaches (K (nat (f_roi_w e * f_roi_h e))) (scan_rows e (j + 1) s1)"
        using Suc.hyps(1)[OF k] Suc.prems(1) lt by simp
      then show ?thesis using Some Continue lt by (simp add: scan_rows_step)
    next
      case (Return rc s1)
      then show ?thesis using st Some by simp
    next
      case (Fault f)
      then show ?thesis using Some lt by (simp add: scan_rows_step)
    qed
  qed
qed

lemma s16_le: "s16 v \<le> 32767"
  by (simp add: s16_def)

lemma adjust_roi_dims:
  assumes "adjust_roi roi_x roi_y (s16 roi_w) (s16 roi_h) in_w in_h = Some (rx, ry, rw, rh)"
  shows "0 < rw \<and> rw \<le> 32767 \<and> 0 < rh \<and> rh \<le> 32767"
  using assms s16_le[of roi_w] s16_le[of roi_h] s16_le[of "in_w - (if roi_x < 0 then 0 else roi_x)"]
    s16_le[of "in_h - s16 roi_h"]
  by (auto simp: adjust_roi_def Let_def split: if_splits)

lemma find_blobs_lone:
  assumes run: "find_blobs roi_x roi_y roi_w roi_h inp in_w in_h (Some out) ex al
                  = Some (Inr (rc, Some out'))"
    and g: "granting al"
    and roi: "adjust_roi (s16 roi_x) (s16 roi_y) (s16 roi_w) (s16 roi_h) (s16 in_w) (s16 in_h)
                = Some (rx, ry, rw, rh)"
    and lo: "lone \<lparr>f_roi_x = rx, f_roi_y = ry, f_roi_w = rw, f_roi_h = rh, f_in = inp,
                   f_in_w = s16 in_w, f_extract_internal = ex\<rparr> x y"
  shows "rc = 1 \<and> \<lparr>count = 1, capacity = 32, points = [(s16 (rx + x), s16 (ry + y))]\<rparr>
           \<in> set (map external (blob_list (o_blobs out')))"
  using run
proof (cases rule: find_blobs_cases)
  case noop
  then show ?thesis using roi by simp
next
  case (scanned rx' ry' rw' rh' al' r s)
  then have eq: "rx' = rx" "ry' = ry" "rw' = rw" "rh' = rh" using roi by simp_all
  let ?e = "\<lparr>f_roi_x = rx, f_roi_y = ry, f_roi_w = rw, f_roi_h = rh, f_in = inp,
                  f_in_w = s16 in_w, f_extract_internal = ex\<rparr>"
  have g': "granting al'" using alloc_granting_True[OF g scanned(2)] by simp
  have dims: "0 < f_roi_w ?e" "f_roi_w ?e \<le> 32767" "0 < f_roi_h ?e" "f_roi_h ?e \<le> 32767"
    using adjust_roi_dims[OF roi] by simp_all
  have frP: "in_frame ?e x y" using lo by (simp add: lone_def)
  have "0 \<le> x + f_roi_w ?e * y \<and> x + f_roi_w ?e * y < f_roi_w ?e * f_roi_h ?e"
    using frP by (intro offset_range) (simp_all add: in_frame_def)
  then have i0: "lone_inv ?e x y (nat (f_roi_w ?e * 0)) (scan_init rw rh al')"
    using g' by (simp add: lone_inv_def scan_init_def blob_list_def)
  have "reaches (lone_inv ?e x y (nat (f_roi_w ?e * f_roi_h ?e))) (scan_rows ?e 0 (scan_init rw rh al'))"
  proof (rule scan_rows_reaches[where K = "lone_inv ?e x y", OF _ _ _ _ i0])
    show "reaches (lone_inv ?e x y (Suc (nat (i + f_roi_w ?e * j)))) (pixel_step ?e i j s')"
      if "0 \<le> i" "i < f_roi_w ?e" "0 \<le> j" "j < f_roi_h ?e"
        "lone_inv ?e x y (nat (i + f_roi_w ?e * j)) s'" for i j s'
      using that(1-4) by (intro pixel_step_lone[OF lo dims _ that(5)]) (simp add: in_frame_def)
  qed (use dims in simp_all)
  then have r: "r = Continue s" "rc = 1" and fin: "lone_inv ?e x y (nat (rw * rh)) s"
    using scanned(3,4) eq by auto
  have "0 \<le> x + rw * y \<and> x + rw * y < rw * rh"
    using offset_range[of x rw y rh] frP by (simp add: in_frame_def)
  then have "\<not> nat (rw * rh) \<le> nat (x + f_roi_w ?e * y)" by (simp add: not_le)
  then have "one_point ?e x y \<in> set (map external (blob_list (s_blobs s)))"
    using fin unfolding lone_inv_def by (simp only: if_False)
  then show ?thesis using scanned(5) r(2) by (simp add: scan_result_def one_point_def)
qed

text \<open>
  When no allocation is refused, every blob that \<^verbatim>\<open>find_blobs\<close> returns has an
  external contour of at least one point, \<open>count\<close> is the number of its points, and
  every point is the ROI origin, as adjusted on entry, added to a position of the ROI (as
  a pair of 16-bit values). For every foreground pixel of the ROI whose eight neighbours
  are outside the ROI or background, some returned blob has the external contour that
  consists of exactly that pixel. The trace of such a pixel always ends.
\<close>

lemma external_contour_points:
  assumes "find_blobs roi_x roi_y roi_w roi_h inp in_w in_h (Some out) ex al
             = Some (Inr (rc, Some out'))"
    and "granting al"
    and "adjust_roi (s16 roi_x) (s16 roi_y) (s16 roi_w) (s16 roi_h) (s16 in_w) (s16 in_h)
           = Some (rx, ry, rw, rh)"
  shows "(\<forall>b \<in> set (blob_list (o_blobs out')).
            points (external b) \<noteq> []
            \<and> count (external b) = int (length (points (external b)))
            \<and> (\<forall>p \<in> set (points (external b)).
                  \<exists>x y. 0 \<le> x \<and> x < rw \<and> 0 \<le> y \<and> y < rh \<and> p = (s16 (rx + x), s16 (ry + y))))
     \<and> (\<forall>x y. lone \<lparr>f_roi_x = rx, f_roi_y = ry, f_roi_w = rw, f_roi_h = rh, f_in = inp,
                     f_in_w = s16 in_w, f_extract_internal = ex\<rparr> x y \<longrightarrow>
            \<lparr>count = 1, capacity = 32, points = [(s16 (rx + x), s16 (ry + y))]\<rparr>
              \<in> set (map external (blob_list (o_blobs out'))))
     \<and> (\<forall>a lbl al'. isolated a \<and> roi_dims_ok a \<and> in_roi a (a_x a) (a_y a) \<and> granting al'
              \<and> length lbl = nat (a_roi_w a * a_roi_h a) \<longrightarrow>
            (\<exists>t. contour_trace a lbl (Some zero_contour) al' = Some (Inr (1, t))
               \<and> t_contour t = Some \<lparr>count = 1, capacity = 32,
                     points = [(s16 (a_roi_x a + a_x a), s16 (a_roi_y a + a_y a))]\<rparr>))"
proof (intro conjI ballI allI impI)
  let ?a0 = "\<lparr>a_external = 0, a_current = 0, a_x = 0, a_y = 0,
            a_roi_x = rx, a_roi_y = ry, a_roi_w = rw, a_roi_h = rh,
            a_in = inp, a_base = rx + s16 in_w * ry, a_line_stride = s16 in_w\<rparr>"
  fix b
  assume "b \<in> set (blob_list (o_blobs out'))"
  then have ok: "ext_ok ?a0 b"
    using find_blobs_exts[OF assms(1,2,3)] by (simp add: list_all_iff)
  show "points (external b) \<noteq> []" "count (external b) = int (length (points (external b)))"
    using ok by (simp_all add: ext_ok_def)
  fix p
  assume "p \<in> set (points (external b))"
  then show "\<exists>x y. 0 \<le> x \<and> x < rw \<and> 0 \<le> y \<and> y < rh \<and> p = (s16 (rx + x), s16 (ry + y))"
    using ok by (auto simp: ext_ok_def list_all_iff abs_point_def in_roi_def)
next
  fix x y
  assume "lone \<lparr>f_roi_x = rx, f_roi_y = ry, f_roi_w = rw, f_roi_h = rh, f_in = inp,
                     f_in_w = s16 in_w, f_extract_internal = ex\<rparr> x y"
  from find_blobs_lone[OF assms(1,2,3) this]
  show "\<lparr>count = 1, capacity = 32, points = [(s16 (rx + x), s16 (ry + y))]\<rparr>
              \<in> set (map external (blob_list (o_blobs out')))"
    by simp
next
  fix a :: trace_args and lbl :: "label_t list" and al'
  assume h: "isolated a \<and> roi_dims_ok a \<and> in_roi a (a_x a) (a_y a) \<and> granting al'
              \<and> length lbl = nat (a_roi_w a * a_roi_h a)"
  obtain t where t: "contour_trace a lbl (Some zero_contour) al' = Some (Inr (1, t))"
      "t_contour t = map_option (\<lambda>c. pushed c (a_roi_x a + a_x a) (a_roi_y a + a_y a))
                        (Some zero_contour)"
    using contour_trace_isolated[of a al' lbl "Some zero_contour"] h by blast
  have "t_contour t = Some \<lparr>count = 1, capacity = 32,
                  points = [(s16 (a_roi_x a + a_x a), s16 (a_roi_y a + a_y a))]\<rparr>"
    using t(2) by (simp add: pushed_def zero_contour_def)
  then show "\<exists>t. contour_trace a lbl (Some zero_contour) al' = Some (Inr (1, t))
               \<and> t_contour t = Some \<lparr>count = 1, capacity = 32,
                     points = [(s16 (a_roi_x a + a_x a), s16 (a_roi_y a + a_y a))]\<rparr>"
    using t(1) by blast
qed

section \<open>The tracer against the walk of the specification\<close>












section \<open>Runs with a refused allocation\<close>

text \<open>
  C5, the claim fails. The mask \<^verbatim>\<open>1 0 1\<close> has two foreground pixels without a foreground
  neighbour. When the fifth allocation request, the point array of the second external
  contour, is refused, \<^verbatim>\<open>contour_trace\<close> returns 0, \<^verbatim>\<open>find_blobs\<close> drops that value and
  returns 1, and the second blob has an external contour of no point.
\<close>

theorem find_blobs_empty_external_contour:
  "find_blobs 0 0 3 1 [1, 0, 1] 3 1 (Some fresh_outputs) 0 [True, True, True, True, False]
     = Some (Inr (1, Some \<lparr>o_label = Some [1, - 1, 2], o_label_w = 3, o_label_h = 1,
          o_blobs = Some [\<lparr>label = 1, external = \<lparr>count = 1, capacity = 32, points = [(0, 0)]\<rparr>,
                           internal = None, internal_count = 0\<rparr>,
                          \<lparr>label = 2, external = \<lparr>count = 0, capacity = 0, points = []\<rparr>,
                           internal = None, internal_count = 0\<rparr>],
          o_count = 2\<rparr>))
   \<and> lone \<lparr>f_roi_x = 0, f_roi_y = 0, f_roi_w = 3, f_roi_h = 1, f_in = [1, 0, 1],
            f_in_w = 3, f_extract_internal = 0\<rparr> 2 0"
  by code_simp

text \<open>
  C7, the claim fails. On the 4-by-4 ring, with the fifth allocation request refused,
  both calls return 1. With \<^verbatim>\<open>extract_internal = 1\<close> the refused request is the point
  array of the internal contour: its trace stops at once and marks no hole pixel, so the
  hole is found a second time and \<open>internal_count\<close> ends at 2. With the flag at 0 the
  call makes three requests only and \<open>internal_count\<close> ends at 1.
\<close>

theorem find_blobs_flag_changes_internal_count:
  "return_code (find_blobs 0 0 4 4 [1,1,1,1, 1,0,0,1, 1,0,0,1, 1,1,1,1] 4 4
      (Some fresh_outputs) 1 [True, True, True, True, False]) = Some 1
   \<and> return_code (find_blobs 0 0 4 4 [1,1,1,1, 1,0,0,1, 1,0,0,1, 1,1,1,1] 4 4
      (Some fresh_outputs) 0 [True, True, True, True, False]) = Some 1
   \<and> map internal_count (blob_list (blobs_of (find_blobs 0 0 4 4
        [1,1,1,1, 1,0,0,1, 1,0,0,1, 1,1,1,1] 4 4
        (Some fresh_outputs) 1 [True, True, True, True, False]))) = [2]
   \<and> map internal_count (blob_list (blobs_of (find_blobs 0 0 4 4
        [1,1,1,1, 1,0,0,1, 1,0,0,1, 1,1,1,1] 4 4
        (Some fresh_outputs) 0 [True, True, True, True, False]))) = [1]"
  by code_simp

section \<open>Runs on concrete masks\<close>

text \<open>
  C1. Every foreground pixel of the ROI should end with a positive label. On this 4-by-4
  mask the topmost pixel of the blob, at (1,0), has the hole pixel (1,1) right below it.
  The scan starts the external contour there and, because the test for a new internal
  contour is the \<^verbatim>\<open>else\<close> branch of the test for a new external one, never traces
  the hole. The foreground pixel (2,2), index 10, is then neither on a traced contour nor
  right of a labelled pixel: the call returns 1 and leaves it at 0.
\<close>

theorem find_blobs_unlabelled_foreground:
  "return_code (find_blobs 0 0 4 4 [0,1,0,0, 1,0,1,1, 1,0,1,1, 1,1,1,1] 4 4
       (Some fresh_outputs) 1 []) = Some 1
   \<and> labels_of (find_blobs 0 0 4 4 [0,1,0,0, 1,0,1,1, 1,0,1,1, 1,1,1,1] 4 4
       (Some fresh_outputs) 1 [])
       = Some [- 1, 1, - 1, - 1,  1, 0, 1, 1,  1, 0, 0, 1,  1, 1, 1, 1]
   \<and> [0,1,0,0, 1,0,1,1, 1,0,1,1, 1,1,1,1 :: uint8_t] ! 10 \<noteq> 0"
  by code_simp

text \<open>
  C2. The ROI should be clamped into the raster, its height to \<^verbatim>\<open>in_h - roi_y\<close>. The
  code assigns \<^verbatim>\<open>in_h - roi_h\<close>. On a raster of one column and four rows: the ROI of
  rows 3 and 4 keeps its height 2, and the scan reads the mask past its end; the ROI of
  rows 2 to 4 gets height 1 where rows 2 and 3 are inside the raster; the ROI of rows 0
  to 4 gets height -1 and the call does nothing although the origin is inside.
\<close>

theorem find_blobs_height_clamp:
  "adjust_roi 0 3 1 2 1 4 = Some (0, 3, 1, 2)
   \<and> find_blobs 0 3 1 2 [1, 1, 1, 1] 1 4 (Some fresh_outputs) 1 [] = Some (Inl OutOfBounds)
   \<and> label_dims (find_blobs 0 2 1 3 [1, 1, 1, 1] 1 4 (Some fresh_outputs) 1 []) = Some (1, 1)
   \<and> find_blobs 0 0 1 5 [1, 1, 1, 1] 1 4 (Some fresh_outputs) 1 []
       = Some (Inr (1, Some fresh_outputs))"
  by code_simp

text \<open>
  C4. A failed allocation should make the call return 0. With the third request refused,
  the one for the points of the first external contour, \<^verbatim>\<open>contour_trace\<close> returns 0,
  \<^verbatim>\<open>find_blobs\<close> drops that value and returns 1 with a blob whose contour is empty.
  With the first request refused, the one for the label buffer, the null test looks at
  the wrong pointer and the call runs into \<^verbatim>\<open>memset\<close> on a null pointer.
\<close>

theorem find_blobs_ignores_failed_allocation:
  "find_blobs 0 0 1 1 [1] 1 1 (Some fresh_outputs) 1 [True, True, False]
     = Some (Inr (1, Some \<lparr>o_label = Some [1], o_label_w = 1, o_label_h = 1,
          o_blobs = Some [\<lparr>label = 1, external = \<lparr>count = 0, capacity = 0, points = []\<rparr>,
                           internal = None, internal_count = 0\<rparr>],
          o_count = 1\<rparr>))
   \<and> find_blobs 0 0 1 1 [1] 1 1 (Some fresh_outputs) 1 [False] = Some (Inl NullPointer)"
  by code_simp

text \<open>
  C8. A cell that holds a positive label should never be given another one. On this
  3-by-4 mask the hole below the first pixel is missed as in C1; the pixel (1,2) below
  the hole is then taken for the start of a second blob, and its trace writes label 2
  over the cells (1,0), (0,1) and (2,1), which hold label 1 after the scan of row 0.
\<close>

theorem find_blobs_relabels_cell:
  "state_labels (scan_cols \<lparr>f_roi_x = 0, f_roi_y = 0, f_roi_w = 3, f_roi_h = 4,
        f_in = [0,1,0, 1,0,1, 1,1,1, 1,1,1], f_in_w = 3, f_extract_internal = 1\<rparr>
        0 0 (scan_init 3 4 []))
     = Some [- 1, 1, - 1,  1, 0, 1,  1, 0, 1,  1, 1, 1]
   \<and> labels_of (find_blobs 0 0 3 4 [0,1,0, 1,0,1, 1,1,1, 1,1,1] 3 4 (Some fresh_outputs) 1 [])
     = Some [- 1, 2, - 1,  2, 0, 2,  1, 2, 1,  1, 1, 1]"
  by code_simp

section \<open>The ROI adjustment\<close>

lemma adjust_roi_None_iff:
  "adjust_roi roi_x roi_y roi_w roi_h in_w in_h = None \<longleftrightarrow>
     roi_x \<ge> in_w \<or> roi_y \<ge> in_h
     \<or> (if max 0 roi_x + roi_w > in_w then s16 (in_w - max 0 roi_x) else roi_w) \<le> 0
     \<or> (if max 0 roi_y + roi_h > in_h then s16 (in_h - roi_h) else roi_h) \<le> 0"
  by (auto simp: adjust_roi_def Let_def max_def)

text \<open>
  C9. Where the ROI adjustment finds nothing to do (the origin at or beyond the right or
  bottom edge of the raster, or an adjusted width or height that is not positive),
  \<^verbatim>\<open>find_blobs\<close> returns 1, has set \<^verbatim>\<open>*blobs\<close> to null and \<^verbatim>\<open>*count\<close> to 0, and
  has written none of \<^verbatim>\<open>*label\<close>, \<^verbatim>\<open>*label_w\<close>, \<^verbatim>\<open>*label_h\<close>.
\<close>

theorem find_blobs_noop_frame:
  assumes "adjust_roi (s16 roi_x) (s16 roi_y) (s16 roi_w) (s16 roi_h) (s16 in_w) (s16 in_h) = None"
  shows "find_blobs roi_x roi_y roi_w roi_h inp in_w in_h (Some out) extract_internal al
           = Some (Inr (1, Some (out\<lparr>o_blobs := None, o_count := 0\<rparr>)))"
  using assms by (simp add: find_blobs_def)

theorem find_blobs_noop_frame_witness:
  "adjust_roi (s16 5) (s16 0) (s16 2) (s16 2) (s16 2) (s16 2) = None
   \<and> find_blobs 5 0 2 2 [1, 1, 1, 1] 2 2
        (Some \<lparr>o_label = Some [7], o_label_w = 1, o_label_h = 1, o_blobs = Some [], o_count = 9\<rparr>)
        1 []
      = Some (Inr (1, Some \<lparr>o_label = Some [7], o_label_w = 1, o_label_h = 1,
                            o_blobs = None, o_count = 0\<rparr>))"
proof -
  have h: "adjust_roi (s16 5) (s16 0) (s16 2) (s16 2) (s16 2) (s16 2) = None"
    by (simp add: adjust_roi_def s16_def)
  show ?thesis
    using h find_blobs_noop_frame [OF h, of "[1, 1, 1, 1]"
        "\<lparr>o_label = Some [7], o_label_w = 1, o_label_h = 1, o_blobs = Some [], o_count = 9\<rparr>"
        1 "[]"]
    by simp
qed

end
